theory Spec2Isabelle
  imports Main "HOL-Library.Word"
begin

unbundle bit_operations_syntax

section \<open>The promise primitive (src/promise.c)\<close>

subsection \<open>Threads, faults and the synchronisation primitives\<close>

type_synonym tid = nat

text \<open>
  A C call either returns, or does not return because the calling thread would
  have to wait for another thread (\<open>Would_block\<close>), or has no defined behaviour
  (\<open>Undefined_behaviour\<close>: an operation on a mutex or condition variable that
  is not initialised, is already destroyed, or is not owned by the caller).
\<close>

datatype fault = Would_block | Undefined_behaviour

definition and_then :: "fault + 'a \<Rightarrow> ('a \<Rightarrow> fault + 'b) \<Rightarrow> fault + 'b" where
  "and_then r f = (case r of Inl e \<Rightarrow> Inl e | Inr x \<Rightarrow> f x)"

datatype uv_mutex_t = MutexUninit | MutexFree | MutexHeld tid | MutexDestroyed

text \<open>A live condition variable carries the set of threads asleep on it.\<close>

datatype uv_cond_t = CondUninit | CondLive "tid set" | CondDestroyed

text \<open>
  Modelled from the spec: \<open>uv_mutex_init\<close> is not under src/. The spec's "allocates the
  mutex ...; fails with an initialization error if either allocation fails": the
  first argument is the status the platform reports (0 for success); on failure the
  mutex storage is left as it was.
\<close>

definition uv_mutex_init :: "int \<Rightarrow> uv_mutex_t \<Rightarrow> int \<times> uv_mutex_t" where
  "uv_mutex_init os_rc m = (if os_rc = 0 then (0, MutexFree) else (os_rc, m))"

text \<open>
  Modelled from the spec: \<open>uv_cond_init\<close> is not under src/. As \<open>uv_mutex_init\<close>;
  a fresh condition variable has no sleeping thread.
\<close>

definition uv_cond_init :: "int \<Rightarrow> uv_cond_t \<Rightarrow> int \<times> uv_cond_t" where
  "uv_cond_init os_rc c = (if os_rc = 0 then (0, CondLive {}) else (os_rc, c))"

text \<open>
  Modelled from the spec: \<open>uv_mutex_lock\<close> is not under src/. The spec's "one mutex
  guarding all fields": a free mutex is taken, a held one makes the caller wait.
\<close>

definition uv_mutex_lock :: "tid \<Rightarrow> uv_mutex_t \<Rightarrow> fault + uv_mutex_t" where
  "uv_mutex_lock t m =
     (case m of
        MutexFree \<Rightarrow> Inr (MutexHeld t)
      | MutexHeld _ \<Rightarrow> Inl Would_block
      | _ \<Rightarrow> Inl Undefined_behaviour)"

text \<open>
  Modelled from the spec: \<open>uv_mutex_trylock\<close> is not under src/. The spec's "attempts
  to acquire the lock without waiting": 0 and the lock when the mutex is free, a
  non-zero status and no change when it is held.
\<close>

definition uv_mutex_trylock :: "tid \<Rightarrow> uv_mutex_t \<Rightarrow> fault + (int \<times> uv_mutex_t)" where
  "uv_mutex_trylock t m =
     (case m of
        MutexFree \<Rightarrow> Inr (0, MutexHeld t)
      | MutexHeld _ \<Rightarrow> Inr (- 1, m)
      | _ \<Rightarrow> Inl Undefined_behaviour)"

text \<open>
  Modelled from the spec: \<open>uv_mutex_unlock\<close> is not under src/. Only the owner may
  release the lock.
\<close>

definition uv_mutex_unlock :: "tid \<Rightarrow> uv_mutex_t \<Rightarrow> fault + uv_mutex_t" where
  "uv_mutex_unlock t m =
     (if m = MutexHeld t then Inr MutexFree else Inl Undefined_behaviour)"

text \<open>
  Modelled from the spec: \<open>uv_mutex_destroy\<close> is not under src/. The spec's "release
  the mutex ... resources": a free mutex becomes unusable; destroying a mutex that
  is held, or not live, is undefined.
\<close>

definition uv_mutex_destroy :: "uv_mutex_t \<Rightarrow> fault + uv_mutex_t" where
  "uv_mutex_destroy m =
     (if m = MutexFree then Inr MutexDestroyed else Inl Undefined_behaviour)"

text \<open>
  Modelled from the spec: \<open>uv_cond_broadcast\<close> is not under src/. The spec's "wake all
  of them": no thread stays asleep on the condition variable.
\<close>

definition uv_cond_broadcast :: "uv_cond_t \<Rightarrow> fault + uv_cond_t" where
  "uv_cond_broadcast c =
     (case c of CondLive _ \<Rightarrow> Inr (CondLive {}) | _ \<Rightarrow> Inl Undefined_behaviour)"

text \<open>
  Modelled from the spec: \<open>uv_cond_destroy\<close> is not under src/. The spec's "release
  the ... condition variable resources"; undefined while a thread sleeps on it.
\<close>

definition uv_cond_destroy :: "uv_cond_t \<Rightarrow> fault + uv_cond_t" where
  "uv_cond_destroy c =
     (if c = CondLive {} then Inr CondDestroyed else Inl Undefined_behaviour)"

subsection \<open>The promise record\<close>

text \<open>A \<open>void*\<close> is an address; \<open>NULL\<close> is address 0.\<close>

type_synonym voidptr = nat

definition NULL :: voidptr where
  "NULL = 0"

text \<open>The value of \<open>EINVAL\<close> in errno.h.\<close>

definition EINVAL :: int where
  "EINVAL = 22"

datatype uv_promise_status =
  UV_PROMISE_PENDING | UV_PROMISE_FULFILLED | UV_PROMISE_BROKEN | UV_PROMISE_CANCELLED

text \<open>
  Modelled from the spec: the declaration of \<open>uv_promise_t\<close> (uv.h) is not under src/.
  The fields are the ones promise.c reads and writes, with the spec's meaning:
  "status", "result: opaque value", "code: integer error code", "waiting: count of
  threads currently blocked in a wait call", "one mutex ...; one condition variable".
\<close>

record uv_promise_t =
  mutex :: uv_mutex_t
  cond :: uv_cond_t
  status :: uv_promise_status
  result :: voidptr
  code :: int
  waiting :: int

text \<open>
  Modelled from the spec: the declaration of \<open>uv_promise_result_t\<close> (uv.h) is not
  under src/: "a snapshot of {status, code, result}".
\<close>

record uv_promise_result_t =
  rs_status :: uv_promise_status
  rs_code :: int
  rs_result :: voidptr

subsection \<open>uv_promise_init, uv_promise_fulfil, uv_promise_break\<close>

text \<open>
  \<open>mutex_rc\<close> and \<open>cond_rc\<close> are what the platform answers to the two allocations.
\<close>

definition uv_promise_init ::
  "int \<Rightarrow> int \<Rightarrow> uv_promise_t \<Rightarrow> fault + (int \<times> uv_promise_t)" where
  "uv_promise_init mutex_rc cond_rc handle =
     (case uv_mutex_init mutex_rc (mutex handle) of (rc, m) \<Rightarrow>
        let handle = handle\<lparr>mutex := m\<rparr> in
        if rc \<noteq> 0 then Inr (rc, handle)
        else
          (case uv_cond_init cond_rc (cond handle) of (rc, c) \<Rightarrow>
             let handle = handle\<lparr>cond := c\<rparr> in
             and_then
               (if rc \<noteq> 0 then uv_mutex_destroy (mutex handle) else Inr (mutex handle))
               (\<lambda>m. Inr (rc, handle\<lparr>mutex := m,
                                     status := UV_PROMISE_PENDING,
                                     result := NULL,
                                     code := 0,
                                     waiting := 0\<rparr>))))"

definition uv_promise_fulfil ::
  "tid \<Rightarrow> uv_promise_t \<Rightarrow> voidptr \<Rightarrow> fault + (int \<times> uv_promise_t)" where
  "uv_promise_fulfil t handle res =
     and_then (uv_mutex_lock t (mutex handle)) (\<lambda>m.
       let handle = handle\<lparr>mutex := m\<rparr> in
       and_then
         (if status handle \<noteq> UV_PROMISE_PENDING then Inr (- EINVAL, handle)
          else
            let handle = handle\<lparr>status := UV_PROMISE_FULFILLED, result := res\<rparr> in
            and_then
              (if waiting handle > 0 then uv_cond_broadcast (cond handle)
               else Inr (cond handle))
              (\<lambda>c. Inr (0, handle\<lparr>cond := c\<rparr>)))
         (\<lambda>(rc, handle).
            and_then (uv_mutex_unlock t (mutex handle)) (\<lambda>m.
              Inr (rc, handle\<lparr>mutex := m\<rparr>))))"

definition uv_promise_break ::
  "tid \<Rightarrow> uv_promise_t \<Rightarrow> int \<Rightarrow> fault + (int \<times> uv_promise_t)" where
  "uv_promise_break t handle c0 =
     and_then (uv_mutex_lock t (mutex handle)) (\<lambda>m.
       let handle = handle\<lparr>mutex := m\<rparr> in
       and_then
         (if status handle \<noteq> UV_PROMISE_PENDING then Inr (- EINVAL, handle)
          else
            let handle = handle\<lparr>status := UV_PROMISE_BROKEN, code := c0\<rparr> in
            and_then
              (if waiting handle > 0 then uv_cond_broadcast (cond handle)
               else Inr (cond handle))
              (\<lambda>c. Inr (0, handle\<lparr>cond := c\<rparr>)))
         (\<lambda>(rc, handle).
            and_then (uv_mutex_unlock t (mutex handle)) (\<lambda>m.
              Inr (rc, handle\<lparr>mutex := m\<rparr>))))"

subsection \<open>uv_promise_get\<close>

text \<open>
  Modelled from the spec: \<open>uv_cond_wait\<close> is not under src/. The spec's "waits on
  the condition variable": the call releases the mutex and puts the caller to sleep
  in one atomic step (\<open>uv_cond_wait_sleep\<close>, the first half of the call); once the
  caller is no longer asleep it takes the mutex again before the call returns
  (\<open>uv_cond_wait_wake\<close>, the second half).
\<close>

definition uv_cond_wait_sleep ::
  "tid \<Rightarrow> uv_cond_t \<Rightarrow> uv_mutex_t \<Rightarrow> fault + (uv_cond_t \<times> uv_mutex_t)" where
  "uv_cond_wait_sleep t c m =
     (case c of
        CondLive S \<Rightarrow> and_then (uv_mutex_unlock t m) (\<lambda>m. Inr (CondLive (insert t S), m))
      | _ \<Rightarrow> Inl Undefined_behaviour)"

text \<open>
  Modelled from the spec: the state of a thread inside \<open>uv_cond_wait\<close> (not under
  src/): it is asleep while the condition variable lists it, that is, until a
  broadcast ("wake all of them") or a wake-up without one.
\<close>

definition asleep :: "tid \<Rightarrow> uv_cond_t \<Rightarrow> bool" where
  "asleep t c = (case c of CondLive S \<Rightarrow> t \<in> S | _ \<Rightarrow> False)"

text \<open>
  Modelled from the spec: the second half of \<open>uv_cond_wait\<close> (not under src/): a
  caller that is still asleep waits; one that was woken takes the mutex again, as
  \<open>uv_mutex_lock\<close> does.
\<close>

definition uv_cond_wait_wake ::
  "tid \<Rightarrow> uv_cond_t \<Rightarrow> uv_mutex_t \<Rightarrow> fault + uv_mutex_t" where
  "uv_cond_wait_wake t c m =
     (if asleep t c then Inl Would_block else uv_mutex_lock t m)"

text \<open>
  \<open>uv_promise_get\<close> runs in segments, cut where \<open>uv_cond_wait\<close> sleeps. A segment
  ends either with the call's return value or with the caller asleep.
\<close>

datatype get_progress = Get_returned uv_promise_result_t | Get_waiting

definition snapshot :: "uv_promise_t \<Rightarrow> uv_promise_result_t" where
  "snapshot handle =
     \<lparr>rs_status = status handle, rs_code = code handle, rs_result = result handle\<rparr>"

text \<open>
  The \<open>while\<close> test with the mutex held by \<open>t\<close>, and what follows it: the next
  \<open>uv_cond_wait\<close> up to its sleep, or the rest of the function. (The initial value
  of \<open>rs\<close>, CANCELLED/0/NULL, is overwritten on every path that returns.)
\<close>

definition uv_promise_get_loop ::
  "tid \<Rightarrow> uv_promise_t \<Rightarrow> fault + (get_progress \<times> uv_promise_t)" where
  "uv_promise_get_loop t handle =
     (if status handle = UV_PROMISE_PENDING then
        and_then (uv_cond_wait_sleep t (cond handle) (mutex handle)) (\<lambda>(c, m).
          Inr (Get_waiting, handle\<lparr>cond := c, mutex := m\<rparr>))
      else
        let handle = handle\<lparr>waiting := waiting handle - 1\<rparr>;
            rs = snapshot handle
        in and_then (uv_mutex_unlock t (mutex handle)) (\<lambda>m.
             Inr (Get_returned rs, handle\<lparr>mutex := m\<rparr>)))"

text \<open>The call of \<open>uv_promise_get\<close>, up to its first sleep or its return.\<close>

definition uv_promise_get ::
  "tid \<Rightarrow> uv_promise_t \<Rightarrow> fault + (get_progress \<times> uv_promise_t)" where
  "uv_promise_get t handle =
     and_then (uv_mutex_lock t (mutex handle)) (\<lambda>m.
       uv_promise_get_loop t (handle\<lparr>mutex := m, waiting := waiting handle + 1\<rparr>))"

text \<open>
  The continuation of a sleeping \<open>uv_promise_get\<close>: \<open>uv_cond_wait\<close> returns with
  the mutex held, and the loop tests \<open>status\<close> again.
\<close>

definition uv_promise_get_wakeup ::
  "tid \<Rightarrow> uv_promise_t \<Rightarrow> fault + (get_progress \<times> uv_promise_t)" where
  "uv_promise_get_wakeup t handle =
     and_then (uv_cond_wait_wake t (cond handle) (mutex handle)) (\<lambda>m.
       uv_promise_get_loop t (handle\<lparr>mutex := m\<rparr>))"

subsection \<open>uv_promise_trywait and uv_promise_destroy\<close>

definition uv_promise_trywait ::
  "tid \<Rightarrow> uv_promise_t \<Rightarrow> fault + (uv_promise_result_t \<times> uv_promise_t)" where
  "uv_promise_trywait t handle =
     (let rs = \<lparr>rs_status = UV_PROMISE_PENDING, rs_code = 0, rs_result = NULL\<rparr> in
      and_then (uv_mutex_trylock t (mutex handle)) (\<lambda>(r, m).
        let handle = handle\<lparr>mutex := m\<rparr> in
        if r = 0 then
          let rs = snapshot handle in
          and_then (uv_mutex_unlock t (mutex handle)) (\<lambda>m.
            Inr (rs, handle\<lparr>mutex := m\<rparr>))
        else Inr (rs, handle)))"

text \<open>The part of \<open>uv_promise_destroy\<close> that runs with the mutex held.\<close>

definition uv_promise_destroy_locked :: "tid \<Rightarrow> uv_promise_t \<Rightarrow> fault + uv_promise_t" where
  "uv_promise_destroy_locked t handle =
     and_then (uv_mutex_lock t (mutex handle)) (\<lambda>m.
       let handle = handle\<lparr>mutex := m\<rparr>;
           handle = (if UV_PROMISE_PENDING = status handle
                     then handle\<lparr>status := UV_PROMISE_CANCELLED\<rparr> else handle)
       in and_then
            (if waiting handle > 0 then uv_cond_broadcast (cond handle)
             else Inr (cond handle))
            (\<lambda>c. let handle = handle\<lparr>cond := c\<rparr> in
               and_then (uv_mutex_unlock t (mutex handle)) (\<lambda>m.
                 Inr (handle\<lparr>mutex := m\<rparr>))))"

text \<open>Its last two statements: \<open>uv_mutex_destroy\<close>, then \<open>uv_cond_destroy\<close>.\<close>

definition uv_promise_destroy_release :: "uv_promise_t \<Rightarrow> fault + uv_promise_t" where
  "uv_promise_destroy_release handle =
     and_then (uv_mutex_destroy (mutex handle)) (\<lambda>m.
       let handle = handle\<lparr>mutex := m\<rparr> in
       and_then (uv_cond_destroy (cond handle)) (\<lambda>c.
         Inr (handle\<lparr>cond := c\<rparr>)))"

definition uv_promise_destroy :: "tid \<Rightarrow> uv_promise_t \<Rightarrow> fault + uv_promise_t" where
  "uv_promise_destroy t handle =
     and_then (uv_promise_destroy_locked t handle) uv_promise_destroy_release"

subsection \<open>Threads sharing one promise\<close>

text \<open>
  Every access to the promise's fields happens with the mutex held, so a run of
  several threads is a sequence of the segments above: whole calls of fulfil,
  break, trywait and destroy (destroy also in its two parts, since other threads
  can run between the unlock and the release of the mutex), the call of get up to
  its sleep, and the wake-up of a sleeping get. A thread can also stop sleeping
  without a broadcast; the \<open>while\<close> loop of \<open>uv_promise_get\<close> is there for that.
\<close>

datatype promise_event =
    Ev_fulfil tid voidptr
  | Ev_break tid int
  | Ev_trywait tid
  | Ev_get tid
  | Ev_get_wakeup tid
  | Ev_spurious tid
  | Ev_destroy tid
  | Ev_destroy_locked tid
  | Ev_destroy_release tid

datatype promise_ret =
    Ret_int int
  | Ret_snapshot uv_promise_result_t
  | Ret_waiting
  | Ret_void

definition ret_of_get :: "get_progress \<times> uv_promise_t \<Rightarrow> fault + (promise_ret \<times> uv_promise_t)" where
  "ret_of_get r =
     (case r of (Get_returned rs, h) \<Rightarrow> Inr (Ret_snapshot rs, h)
              | (Get_waiting, h) \<Rightarrow> Inr (Ret_waiting, h))"

fun promise_step :: "promise_event \<Rightarrow> uv_promise_t \<Rightarrow> fault + (promise_ret \<times> uv_promise_t)" where
  "promise_step (Ev_fulfil t v) h =
     and_then (uv_promise_fulfil t h v) (\<lambda>(rc, h). Inr (Ret_int rc, h))"
| "promise_step (Ev_break t c) h =
     and_then (uv_promise_break t h c) (\<lambda>(rc, h). Inr (Ret_int rc, h))"
| "promise_step (Ev_trywait t) h =
     and_then (uv_promise_trywait t h) (\<lambda>(rs, h). Inr (Ret_snapshot rs, h))"
| "promise_step (Ev_get t) h = and_then (uv_promise_get t h) ret_of_get"
| "promise_step (Ev_get_wakeup t) h = and_then (uv_promise_get_wakeup t h) ret_of_get"
| "promise_step (Ev_spurious t) h =
     (case cond h of
        CondLive S \<Rightarrow> Inr (Ret_void, h\<lparr>cond := CondLive (S - {t})\<rparr>)
      | _ \<Rightarrow> Inr (Ret_void, h))"
| "promise_step (Ev_destroy t) h =
     and_then (uv_promise_destroy t h) (\<lambda>h. Inr (Ret_void, h))"
| "promise_step (Ev_destroy_locked t) h =
     and_then (uv_promise_destroy_locked t h) (\<lambda>h. Inr (Ret_void, h))"
| "promise_step (Ev_destroy_release t) h =
     and_then (uv_promise_destroy_release h) (\<lambda>h. Inr (Ret_void, h))"

text \<open>A run returns what each segment returned, in order, and the final promise.\<close>

fun promise_run ::
  "promise_event list \<Rightarrow> uv_promise_t \<Rightarrow> fault + (promise_ret list \<times> uv_promise_t)" where
  "promise_run [] h = Inr ([], h)"
| "promise_run (e # es) h =
     and_then (promise_step e h) (\<lambda>(r, h).
       and_then (promise_run es h) (\<lambda>(rs, h). Inr (r # rs, h)))"

text \<open>The promise can be used: its mutex is free and its condition variable is live.\<close>

definition usable :: "uv_promise_t \<Rightarrow> bool" where
  "usable h = (mutex h = MutexFree \<and> (case cond h of CondLive _ \<Rightarrow> True | _ \<Rightarrow> False))"

definition is_fulfil_or_break :: "promise_event \<Rightarrow> bool" where
  "is_fulfil_or_break e = (case e of Ev_fulfil _ _ \<Rightarrow> True | Ev_break _ _ \<Rightarrow> True | _ \<Rightarrow> False)"

text \<open>While the promise is pending, no code and no result are stored.\<close>

definition pending_clean :: "uv_promise_t \<Rightarrow> bool" where
  "pending_clean h = (status h = UV_PROMISE_PENDING \<longrightarrow> code h = 0 \<and> result h = NULL)"

section \<open>The reactor (src/unix/core.c)\<close>

subsection \<open>Handles, the loop and the routines outside core.c\<close>

text \<open>A handle pointer is the address of a handle; a callback is the address of its code.\<close>

type_synonym handle_ptr = nat
type_synonym cb_ptr = nat

text \<open>
  Modelled from the spec: the enumeration \<open>uv_handle_type\<close> (uv.h) is not under src/.
  The spec's "tag identifying the concrete handle kind": the kinds core.c names in
  its switches; \<open>UV_UNKNOWN_HANDLE\<close> stands for every other value of the tag.
\<close>

datatype uv_handle_type =
    UV_UNKNOWN_HANDLE | UV_ASYNC | UV_CHECK | UV_FS_EVENT | UV_IDLE | UV_NAMED_PIPE
  | UV_POLL | UV_PREPARE | UV_PROCESS | UV_TCP | UV_TIMER | UV_TTY | UV_UDP

text \<open>
  Modelled from the spec: the declaration of \<open>uv_handle_t\<close> and of the stream
  handles (uv.h) is not under src/. The fields are the ones core.c reads and writes:
  the spec's "type", "flags: bitset", "next_pending: intrusive link",
  "close_callback: optional, set at close time", and, for a stream, whether its read
  and write watchers are active and its descriptor (asserted by the close finalizer).
\<close>

record uv_handle_t =
  type :: uv_handle_type
  flags :: "32 word"
  next_pending :: "handle_ptr option"
  close_cb :: "cb_ptr option"
  read_watcher_active :: bool
  write_watcher_active :: bool
  fd :: int

text \<open>
  Modelled from the spec: the flag masks (internal.h, uv-common.h) are not under src/.
  The spec's "bitset" of CLOSING, CLOSED, PENDING and REFERENCED: each flag is one
  bit of \<open>flags\<close>, and the four bits differ. \<open>UV_CLOSING\<close> is the spec's CLOSING
  ("close requested, teardown in progress").
\<close>

definition UV_CLOSING :: "32 word" where
  "UV_CLOSING = 0x01"

text \<open>
  Modelled from the spec: the mask \<open>UV_CLOSED\<close> is not under src/: the spec's CLOSED
  ("teardown finished, terminal").
\<close>

definition UV_CLOSED :: "32 word" where
  "UV_CLOSED = 0x02"

text \<open>
  Modelled from the spec: the mask \<open>UV__PENDING\<close> is not under src/: the spec's
  PENDING ("currently linked into the pending queue").
\<close>

definition UV__PENDING :: "32 word" where
  "UV__PENDING = 0x800"

text \<open>
  Modelled from the spec: the mask \<open>UV__REF\<close> is not under src/: the spec's
  REFERENCED ("counts toward loop has work").
\<close>

definition UV__REF :: "32 word" where
  "UV__REF = 0x8000"

text \<open>
  Modelled from the spec: the declaration of \<open>uv_loop_t\<close> (uv.h) is not under src/.
  The fields core.c uses: the head of the pending queue, the queues of active and
  of idle handles (tested with \<open>ngx_queue_empty\<close>), and the active requests.
\<close>

record uv_loop_t =
  pending_handles :: "handle_ptr option"
  active_handles :: "handle_ptr list"
  idle_handles :: "handle_ptr list"
  active_reqs :: "nat list"

text \<open>The memory the reactor works on: one loop and the handles, by address.\<close>

record state =
  loop :: uv_loop_t
  heap :: "handle_ptr \<Rightarrow> uv_handle_t"

text \<open>\<open>assert\<close> that fails, and \<open>abort()\<close>: both end the process.\<close>

datatype abort = Assertion_failed | Aborted

text \<open>
  The routines core.c calls and that are not part of it: the type-specific close,
  pending and destroy routines, the close callbacks of the user, the phase hooks
  and the libev calls of \<open>uv__poll\<close> (\<open>Ev_run True\<close> is \<open>EVRUN_ONCE\<close>,
  \<open>Ev_run False\<close> is \<open>EVRUN_NOWAIT\<close>). What each of them does to the memory is a
  parameter of the model (\<open>env\<close>); the calls core.c makes are recorded in order.
\<close>

datatype ext_call =
    Uv__pipe_close handle_ptr
  | Uv__stream_close handle_ptr
  | Uv__udp_close handle_ptr
  | Uv__prepare_close handle_ptr
  | Uv__check_close handle_ptr
  | Uv__idle_close handle_ptr
  | Uv__async_close handle_ptr
  | Uv__timer_close handle_ptr
  | Uv__process_close handle_ptr
  | Uv__fs_event_close handle_ptr
  | Uv__poll_close handle_ptr
  | Uv__stream_pending handle_ptr
  | Uv__stream_destroy handle_ptr
  | Uv__udp_finish_close handle_ptr
  | Close_cb cb_ptr handle_ptr
  | Uv__handle_unref handle_ptr
  | Uv__run_idle
  | Uv__run_prepare
  | Uv__run_check
  | Ev_ref
  | Ev_run bool
  | Ev_unref

type_synonym env = "ext_call \<Rightarrow> state \<Rightarrow> state"

type_synonym world = "state \<times> ext_call list"

definition call :: "env \<Rightarrow> ext_call \<Rightarrow> world \<Rightarrow> world" where
  "call ext c w = (ext c (fst w), snd w @ [c])"

text \<open>The handle a recorded call is about.\<close>

fun call_handle :: "ext_call \<Rightarrow> handle_ptr option" where
  "call_handle (Uv__pipe_close h) = Some h"
| "call_handle (Uv__stream_close h) = Some h"
| "call_handle (Uv__udp_close h) = Some h"
| "call_handle (Uv__prepare_close h) = Some h"
| "call_handle (Uv__check_close h) = Some h"
| "call_handle (Uv__idle_close h) = Some h"
| "call_handle (Uv__async_close h) = Some h"
| "call_handle (Uv__timer_close h) = Some h"
| "call_handle (Uv__process_close h) = Some h"
| "call_handle (Uv__fs_event_close h) = Some h"
| "call_handle (Uv__poll_close h) = Some h"
| "call_handle (Uv__stream_pending h) = Some h"
| "call_handle (Uv__stream_destroy h) = Some h"
| "call_handle (Uv__udp_finish_close h) = Some h"
| "call_handle (Close_cb cb h) = Some h"
| "call_handle (Uv__handle_unref h) = Some h"
| "call_handle _ = None"

definition handle_at :: "world \<Rightarrow> handle_ptr \<Rightarrow> uv_handle_t" where
  "handle_at w h = heap (fst w) h"

definition loop_of :: "world \<Rightarrow> uv_loop_t" where
  "loop_of w = loop (fst w)"

definition upd_handle :: "handle_ptr \<Rightarrow> (uv_handle_t \<Rightarrow> uv_handle_t) \<Rightarrow> world \<Rightarrow> world" where
  "upd_handle h f w = ((fst w)\<lparr>heap := (heap (fst w))(h := f (heap (fst w) h))\<rparr>, snd w)"

definition upd_loop :: "(uv_loop_t \<Rightarrow> uv_loop_t) \<Rightarrow> world \<Rightarrow> world" where
  "upd_loop f w = ((fst w)\<lparr>loop := f (loop (fst w))\<rparr>, snd w)"

text \<open>
  Modelled from the spec: \<open>uv__make_pending\<close> (internal.h) is not under src/. The
  spec's flag "PENDING (currently linked into the pending queue)" and link "owned by
  the pending queue while PENDING is set": a handle that is not flagged is pushed on
  the front of the loop's queue and flagged; a handle that is flagged is linked
  already and stays where it is.
\<close>

definition uv__make_pending :: "handle_ptr \<Rightarrow> world \<Rightarrow> world" where
  "uv__make_pending h w =
     (if flags (handle_at w h) AND UV__PENDING \<noteq> 0 then w
      else
        let w = upd_handle h (\<lambda>x. x\<lparr>next_pending := pending_handles (loop_of w)\<rparr>) w;
            w = upd_loop (\<lambda>l. l\<lparr>pending_handles := Some h\<rparr>) w
        in upd_handle h (\<lambda>x. x\<lparr>flags := flags x OR UV__PENDING\<rparr>) w)"

text \<open>
  Modelled from the spec: \<open>uv__has_pending_handles\<close> (internal.h) is not under src/:
  "(pending queue non-empty)".
\<close>

definition uv__has_pending_handles :: "world \<Rightarrow> bool" where
  "uv__has_pending_handles w = (pending_handles (loop_of w) \<noteq> None)"

text \<open>
  Modelled from the spec: \<open>uv__has_active_handles\<close> (uv-common.h) is not under src/:
  "(active handles > 0)".
\<close>

definition uv__has_active_handles :: "world \<Rightarrow> bool" where
  "uv__has_active_handles w = (active_handles (loop_of w) \<noteq> [])"

text \<open>
  Modelled from the spec: \<open>uv__has_active_reqs\<close> (uv-common.h) is not under src/:
  "(active requests > 0)".
\<close>

definition uv__has_active_reqs :: "world \<Rightarrow> bool" where
  "uv__has_active_reqs w = (active_reqs (loop_of w) \<noteq> [])"

text \<open>
  Modelled from the spec: \<open>uv__is_active\<close> (uv-common.h) is not under src/: "true if
  the handle currently counts toward the loop's has-work determination", that is,
  the handle is one of the loop's active handles.
\<close>

definition uv__is_active :: "world \<Rightarrow> handle_ptr \<Rightarrow> bool" where
  "uv__is_active w h = (h \<in> set (active_handles (loop_of w)))"

subsection \<open>uv_close and uv__finish_close\<close>

definition uv_close :: "env \<Rightarrow> handle_ptr \<Rightarrow> cb_ptr option \<Rightarrow> world \<Rightarrow> abort + world" where
  "uv_close ext handle cb w =
     (let w = upd_handle handle (\<lambda>x. x\<lparr>close_cb := cb\<rparr>) w in
      case
        (case type (handle_at w handle) of
           UV_NAMED_PIPE \<Rightarrow> Inr (call ext (Uv__pipe_close handle) w)
         | UV_TTY \<Rightarrow> Inr (call ext (Uv__stream_close handle) w)
         | UV_TCP \<Rightarrow> Inr (call ext (Uv__stream_close handle) w)
         | UV_UDP \<Rightarrow> Inr (call ext (Uv__udp_close handle) w)
         | UV_PREPARE \<Rightarrow> Inr (call ext (Uv__prepare_close handle) w)
         | UV_CHECK \<Rightarrow> Inr (call ext (Uv__check_close handle) w)
         | UV_IDLE \<Rightarrow> Inr (call ext (Uv__idle_close handle) w)
         | UV_ASYNC \<Rightarrow> Inr (call ext (Uv__async_close handle) w)
         | UV_TIMER \<Rightarrow> Inr (call ext (Uv__timer_close handle) w)
         | UV_PROCESS \<Rightarrow> Inr (call ext (Uv__process_close handle) w)
         | UV_FS_EVENT \<Rightarrow> Inr (call ext (Uv__fs_event_close handle) w)
         | UV_POLL \<Rightarrow> Inr (call ext (Uv__poll_close handle) w)
         | UV_UNKNOWN_HANDLE \<Rightarrow> Inl Assertion_failed)
      of
        Inl e \<Rightarrow> Inl e
      | Inr w \<Rightarrow>
          let w = upd_handle handle (\<lambda>x. x\<lparr>flags := flags x OR UV_CLOSING\<rparr>) w
          in Inr (uv__make_pending handle w))"

text \<open>The type-specific part of \<open>uv__finish_close\<close> (its switch).\<close>

definition finish_close_release :: "env \<Rightarrow> handle_ptr \<Rightarrow> world \<Rightarrow> abort + world" where
  "finish_close_release ext handle w =
     (case type (handle_at w handle) of
        UV_PREPARE \<Rightarrow> Inr w
      | UV_CHECK \<Rightarrow> Inr w
      | UV_IDLE \<Rightarrow> Inr w
      | UV_ASYNC \<Rightarrow> Inr w
      | UV_TIMER \<Rightarrow> Inr w
      | UV_PROCESS \<Rightarrow> Inr w
      | UV_UDP \<Rightarrow> Inr (call ext (Uv__udp_finish_close handle) w)
      | UV_FS_EVENT \<Rightarrow> Inr w
      | UV_POLL \<Rightarrow> Inr w
      | UV_UNKNOWN_HANDLE \<Rightarrow> Inl Assertion_failed
      | _ \<Rightarrow>
          if read_watcher_active (handle_at w handle) then Inl Assertion_failed
          else if write_watcher_active (handle_at w handle) then Inl Assertion_failed
          else if fd (handle_at w handle) \<noteq> - 1 then Inl Assertion_failed
          else Inr (call ext (Uv__stream_destroy handle) w))"

definition uv__finish_close :: "env \<Rightarrow> handle_ptr \<Rightarrow> world \<Rightarrow> abort + world" where
  "uv__finish_close ext handle w =
     (if uv__is_active w handle then Inl Assertion_failed
      else if \<not> (flags (handle_at w handle) AND UV_CLOSING \<noteq> 0) then Inl Assertion_failed
      else if flags (handle_at w handle) AND UV_CLOSED \<noteq> 0 then Inl Assertion_failed
      else
        let w = upd_handle handle (\<lambda>x. x\<lparr>flags := flags x OR UV_CLOSED\<rparr>) w in
        case finish_close_release ext handle w of
          Inl e \<Rightarrow> Inl e
        | Inr w \<Rightarrow>
            let w = (case close_cb (handle_at w handle) of
                       Some cb \<Rightarrow> call ext (Close_cb cb handle) w
                     | None \<Rightarrow> w)
            in Inr (call ext (Uv__handle_unref handle) w))"

subsection \<open>uv__run_pending\<close>

text \<open>The body of the \<open>for\<close> loop, for the handle \<open>p\<close> (after \<open>q = p->next_pending\<close>).\<close>

definition run_pending_body :: "env \<Rightarrow> handle_ptr \<Rightarrow> world \<Rightarrow> abort + world" where
  "run_pending_body ext p w =
     (let w = upd_handle p (\<lambda>x. x\<lparr>next_pending := None\<rparr>) w;
          w = upd_handle p (\<lambda>x. x\<lparr>flags := flags x AND NOT UV__PENDING\<rparr>) w
      in if flags (handle_at w p) AND UV_CLOSING \<noteq> 0 then uv__finish_close ext p w
         else
           (case type (handle_at w p) of
              UV_NAMED_PIPE \<Rightarrow> Inr (call ext (Uv__stream_pending p) w)
            | UV_TCP \<Rightarrow> Inr (call ext (Uv__stream_pending p) w)
            | UV_TTY \<Rightarrow> Inr (call ext (Uv__stream_pending p) w)
            | _ \<Rightarrow> Inl Aborted))"

text \<open>
  The loop from the pointer \<open>p\<close> on. It follows the links in memory, which the
  routines it calls can change: \<open>None\<close> is a loop that never ends.
\<close>

partial_function (option) run_pending_loop ::
  "env \<Rightarrow> handle_ptr option \<Rightarrow> world \<Rightarrow> (abort + world) option" where
  "run_pending_loop ext p w =
     (case p of
        None \<Rightarrow> Some (Inr w)
      | Some p' \<Rightarrow>
          let q = next_pending (handle_at w p') in
          (case run_pending_body ext p' w of
             Inl e \<Rightarrow> Some (Inl e)
           | Inr w \<Rightarrow> run_pending_loop ext q w))"

definition uv__run_pending :: "env \<Rightarrow> world \<Rightarrow> (abort + world) option" where
  "uv__run_pending ext w =
     (if pending_handles (loop_of w) = None then Some (Inr w)
      else run_pending_loop ext (pending_handles (loop_of w))
             (upd_loop (\<lambda>l. l\<lparr>pending_handles := None\<rparr>) w))"

subsection \<open>uv__run, uv_run and uv_run_once\<close>

definition uv__poll :: "env \<Rightarrow> bool \<Rightarrow> world \<Rightarrow> world" where
  "uv__poll ext block w = call ext Ev_unref (call ext (Ev_run block) (call ext Ev_ref w))"

definition uv__should_block :: "world \<Rightarrow> bool" where
  "uv__should_block w = (idle_handles (loop_of w) = [] \<and> \<not> active_handles (loop_of w) = [])"

definition uv__run :: "env \<Rightarrow> world \<Rightarrow> (abort + (bool \<times> world)) option" where
  "uv__run ext w =
     (let w = call ext Uv__run_idle w in
      case uv__run_pending ext w of
        None \<Rightarrow> None
      | Some (Inl e) \<Rightarrow> Some (Inl e)
      | Some (Inr w) \<Rightarrow>
          let w = (if uv__has_active_handles w \<or> uv__has_active_reqs w then
                     let w = call ext Uv__run_prepare w;
                         w = uv__poll ext (uv__should_block w) w
                     in call ext Uv__run_check w
                   else w)
          in Some (Inr (uv__has_pending_handles w \<or> uv__has_active_handles w
                          \<or> uv__has_active_reqs w, w)))"

partial_function (option) uv_run :: "env \<Rightarrow> world \<Rightarrow> (abort + (int \<times> world)) option" where
  "uv_run ext w =
     (case uv__run ext w of
        None \<Rightarrow> None
      | Some (Inl e) \<Rightarrow> Some (Inl e)
      | Some (Inr (again, w)) \<Rightarrow> if again then uv_run ext w else Some (Inr (0, w)))"

definition uv_run_once :: "env \<Rightarrow> world \<Rightarrow> (abort + (int \<times> world)) option" where
  "uv_run_once ext w =
     (case uv__run ext w of
        None \<Rightarrow> None
      | Some (Inl e) \<Rightarrow> Some (Inl e)
      | Some (Inr (again, w)) \<Rightarrow> Some (Inr (0, w)))"

subsection \<open>The pending queue as a list\<close>

text \<open>\<open>is_chain H p hs\<close>: following \<open>next_pending\<close> from \<open>p\<close> visits \<open>hs\<close> and ends.\<close>

fun is_chain :: "(handle_ptr \<Rightarrow> uv_handle_t) \<Rightarrow> handle_ptr option \<Rightarrow> handle_ptr list \<Rightarrow> bool" where
  "is_chain H p [] = (p = None)"
| "is_chain H p (h # hs) = (p = Some h \<and> is_chain H (next_pending (H h)) hs)"

text \<open>One pass over a list of handles: the loop body for each, in order.\<close>

fun dispatch_each :: "env \<Rightarrow> handle_ptr list \<Rightarrow> world \<Rightarrow> abort + world" where
  "dispatch_each ext [] w = Inr w"
| "dispatch_each ext (h # hs) w =
     (case run_pending_body ext h w of
        Inl e \<Rightarrow> Inl e
      | Inr w \<Rightarrow> dispatch_each ext hs w)"

text \<open>
  The routines outside core.c leave a handle that is flagged PENDING flagged, and
  leave its link alone (as they do when they enqueue with \<open>uv__make_pending\<close> only).
\<close>

definition keeps_pending_links :: "env \<Rightarrow> bool" where
  "keeps_pending_links ext =
     (\<forall>c s h. flags (heap s h) AND UV__PENDING \<noteq> 0 \<longrightarrow>
        flags (heap (ext c s) h) AND UV__PENDING \<noteq> 0 \<and>
        next_pending (heap (ext c s) h) = next_pending (heap s h))"

text \<open>The first \<open>n + 1\<close> cycles of \<open>uv_run\<close>: it goes on while a cycle returns true.\<close>

fun run_cycles :: "env \<Rightarrow> nat \<Rightarrow> world \<Rightarrow> (abort + (bool \<times> world)) option" where
  "run_cycles ext 0 w = uv__run ext w"
| "run_cycles ext (Suc n) w =
     (case uv__run ext w of
        Some (Inr (True, w')) \<Rightarrow> run_cycles ext n w'
      | r \<Rightarrow> r)"

subsection \<open>Tables read off the switches, and example memories\<close>

text \<open>The routine the switch of \<open>uv_close\<close> selects for a type tag (none for an unknown tag).\<close>

fun close_routine :: "uv_handle_type \<Rightarrow> handle_ptr \<Rightarrow> ext_call option" where
  "close_routine UV_NAMED_PIPE h = Some (Uv__pipe_close h)"
| "close_routine UV_TTY h = Some (Uv__stream_close h)"
| "close_routine UV_TCP h = Some (Uv__stream_close h)"
| "close_routine UV_UDP h = Some (Uv__udp_close h)"
| "close_routine UV_PREPARE h = Some (Uv__prepare_close h)"
| "close_routine UV_CHECK h = Some (Uv__check_close h)"
| "close_routine UV_IDLE h = Some (Uv__idle_close h)"
| "close_routine UV_ASYNC h = Some (Uv__async_close h)"
| "close_routine UV_TIMER h = Some (Uv__timer_close h)"
| "close_routine UV_PROCESS h = Some (Uv__process_close h)"
| "close_routine UV_FS_EVENT h = Some (Uv__fs_event_close h)"
| "close_routine UV_POLL h = Some (Uv__poll_close h)"
| "close_routine UV_UNKNOWN_HANDLE h = None"

definition is_stream :: "uv_handle_type \<Rightarrow> bool" where
  "is_stream t = (t = UV_NAMED_PIPE \<or> t = UV_TCP \<or> t = UV_TTY)"

text \<open>The routines the switch of \<open>uv__finish_close\<close> calls for a type tag.\<close>

definition release_calls :: "uv_handle_type \<Rightarrow> handle_ptr \<Rightarrow> ext_call list" where
  "release_calls t h =
     (if is_stream t then [Uv__stream_destroy h]
      else if t = UV_UDP then [Uv__udp_finish_close h]
      else [])"

text \<open>The routines outside core.c never clear the flag CLOSED.\<close>

definition keeps_closed :: "env \<Rightarrow> bool" where
  "keeps_closed ext =
     (\<forall>c s h. flags (heap s h) AND UV_CLOSED \<noteq> 0 \<longrightarrow> flags (heap (ext c s) h) AND UV_CLOSED \<noteq> 0)"

text \<open>An environment whose routines change nothing.\<close>

definition quiet_env :: env where
  "quiet_env c s = s"

definition no_handle :: uv_handle_t where
  "no_handle = \<lparr>type = UV_UNKNOWN_HANDLE, flags = 0, next_pending = None, close_cb = None,
                 read_watcher_active = False, write_watcher_active = False, fd = - 1\<rparr>"

text \<open>A loop with no handle and no request.\<close>

definition empty_loop :: state where
  "empty_loop = \<lparr>loop = \<lparr>pending_handles = None, active_handles = [], idle_handles = [],
                           active_reqs = []\<rparr>,
                  heap = (\<lambda>_. no_handle)\<rparr>"

text \<open>An environment whose check phase completes one request per cycle.\<close>

definition check_completes_env :: env where
  "check_completes_env c s =
     (case c of
        Uv__run_check \<Rightarrow> s\<lparr>loop := (loop s)\<lparr>active_reqs := tl (active_reqs (loop s))\<rparr>\<rparr>
      | _ \<Rightarrow> s)"

definition two_reqs_loop :: state where
  "two_reqs_loop = empty_loop\<lparr>loop := (loop empty_loop)\<lparr>active_reqs := [1, 2]\<rparr>\<rparr>"

text \<open>A close callback that closes the timer at address 3.\<close>

definition close_other_env :: env where
  "close_other_env c s =
     (case c of
        Close_cb cb h \<Rightarrow>
          (case uv_close quiet_env 3 None (s, []) of Inr w \<Rightarrow> fst w | Inl e \<Rightarrow> s)
      | _ \<Rightarrow> s)"

text \<open>
  Three handles: a TCP stream (1) with a pending event, linked to a timer (2) that
  is being closed with callback 9, and a timer (3) that is not on the queue.
\<close>

definition drain_example :: state where
  "drain_example =
     \<lparr>loop = \<lparr>pending_handles = Some 1, active_handles = [], idle_handles = [],
              active_reqs = []\<rparr>,
      heap = (\<lambda>_. no_handle)
        (1 := \<lparr>type = UV_TCP, flags = UV__REF OR UV__PENDING, next_pending = Some 2,
               close_cb = None, read_watcher_active = False, write_watcher_active = False,
               fd = 7\<rparr>,
         2 := \<lparr>type = UV_TIMER, flags = UV__REF OR UV_CLOSING OR UV__PENDING,
               next_pending = None, close_cb = Some 9, read_watcher_active = False,
               write_watcher_active = False, fd = - 1\<rparr>,
         3 := \<lparr>type = UV_TIMER, flags = UV__REF, next_pending = None, close_cb = None,
               read_watcher_active = False, write_watcher_active = False, fd = - 1\<rparr>)\<rparr>"

text \<open>A timer (1) with the flag PENDING that is not being closed, alone on the queue.\<close>

definition timer_pending_example :: state where
  "timer_pending_example =
     \<lparr>loop = \<lparr>pending_handles = Some 1, active_handles = [], idle_handles = [],
              active_reqs = []\<rparr>,
      heap = (\<lambda>_. no_handle)
        (1 := \<lparr>type = UV_TIMER, flags = UV__REF OR UV__PENDING, next_pending = None,
               close_cb = None, read_watcher_active = False, write_watcher_active = False,
               fd = - 1\<rparr>)\<rparr>"

text \<open>
  What the asserts of \<open>uv__finish_close\<close> say of the routines outside core.c: no
  routine changes the type tag of a handle (the spec's "fixed at creation; never
  changes"), and the close routine of a stream leaves both watchers inactive and the
  descriptor at -1.
\<close>

definition closes_streams :: "env \<Rightarrow> bool" where
  "closes_streams ext =
     (\<forall>c s h.
        type (heap (ext c s) h) = type (heap s h) \<and>
        (c = Uv__pipe_close h \<or> c = Uv__stream_close h \<longrightarrow>
           \<not> read_watcher_active (heap (ext c s) h) \<and>
           \<not> write_watcher_active (heap (ext c s) h) \<and>
           fd (heap (ext c s) h) = - 1))"

text \<open>An environment whose stream close routines release the stream, and nothing else.\<close>

definition release_stream :: "handle_ptr \<Rightarrow> state \<Rightarrow> state" where
  "release_stream h s =
     s\<lparr>heap := (heap s)
          (h := (heap s h)\<lparr>read_watcher_active := False, write_watcher_active := False,
                           fd := - 1\<rparr>)\<rparr>"

definition releasing_env :: env where
  "releasing_env c s =
     (case c of
        Uv__pipe_close h \<Rightarrow> release_stream h s
      | Uv__stream_close h \<Rightarrow> release_stream h s
      | _ \<Rightarrow> s)"

text \<open>An open TCP stream (1): reading, with the descriptor 7, not being closed.\<close>

definition tcp_open_example :: state where
  "tcp_open_example =
     \<lparr>loop = \<lparr>pending_handles = None, active_handles = [], idle_handles = [],
              active_reqs = []\<rparr>,
      heap = (\<lambda>_. no_handle)
        (1 := \<lparr>type = UV_TCP, flags = UV__REF, next_pending = None, close_cb = None,
               read_watcher_active = True, write_watcher_active = False, fd = 7\<rparr>)\<rparr>"

section \<open>Properties of the promise primitive\<close>

lemmas prim_defs = and_then_def uv_mutex_lock_def uv_mutex_unlock_def uv_mutex_trylock_def
  uv_mutex_destroy_def uv_cond_broadcast_def uv_cond_destroy_def uv_mutex_init_def
  uv_cond_init_def uv_cond_wait_sleep_def uv_cond_wait_wake_def asleep_def

lemma EINVAL_nonzero: "EINVAL \<noteq> 0"
  by (simp add: EINVAL_def)

subsection \<open>fulfil and break: first writer wins\<close>

lemma fulfil_terminal:
  "usable h \<Longrightarrow> status h \<noteq> UV_PROMISE_PENDING \<Longrightarrow>
   uv_promise_fulfil t h v = Inr (- EINVAL, h)"
  by (simp add: uv_promise_fulfil_def usable_def prim_defs)

lemma fulfil_pending:
  "usable h \<Longrightarrow> status h = UV_PROMISE_PENDING \<Longrightarrow>
   uv_promise_fulfil t h v =
     Inr (0, h\<lparr>status := UV_PROMISE_FULFILLED, result := v,
               cond := (if waiting h > 0 then CondLive {} else cond h)\<rparr>)"
  by (auto simp add: uv_promise_fulfil_def usable_def prim_defs split: uv_cond_t.splits)

lemma break_terminal:
  "usable h \<Longrightarrow> status h \<noteq> UV_PROMISE_PENDING \<Longrightarrow>
   uv_promise_break t h c = Inr (- EINVAL, h)"
  by (simp add: uv_promise_break_def usable_def prim_defs)

lemma break_pending:
  "usable h \<Longrightarrow> status h = UV_PROMISE_PENDING \<Longrightarrow>
   uv_promise_break t h c =
     Inr (0, h\<lparr>status := UV_PROMISE_BROKEN, code := c,
               cond := (if waiting h > 0 then CondLive {} else cond h)\<rparr>)"
  by (auto simp add: uv_promise_break_def usable_def prim_defs split: uv_cond_t.splits)

lemma step_terminal:
  "usable h \<Longrightarrow> status h \<noteq> UV_PROMISE_PENDING \<Longrightarrow> is_fulfil_or_break e \<Longrightarrow>
   promise_step e h = Inr (Ret_int (- EINVAL), h)"
  by (cases e) (simp_all add: is_fulfil_or_break_def fulfil_terminal break_terminal and_then_def)

lemma step_pending:
  "usable h \<Longrightarrow> status h = UV_PROMISE_PENDING \<Longrightarrow> is_fulfil_or_break e \<Longrightarrow>
   \<exists>h'. promise_step e h = Inr (Ret_int 0, h') \<and> usable h' \<and>
        status h' \<noteq> UV_PROMISE_PENDING \<and>
        (\<forall>t v. e = Ev_fulfil t v \<longrightarrow>
           status h' = UV_PROMISE_FULFILLED \<and> result h' = v \<and> code h' = code h) \<and>
        (\<forall>t c. e = Ev_break t c \<longrightarrow>
           status h' = UV_PROMISE_BROKEN \<and> code h' = c \<and> result h' = result h)"
  by (cases e)
     (auto simp add: is_fulfil_or_break_def fulfil_pending break_pending and_then_def usable_def
           split: uv_cond_t.splits)

lemma run_terminal:
  "usable h \<Longrightarrow> status h \<noteq> UV_PROMISE_PENDING \<Longrightarrow> \<forall>e \<in> set es. is_fulfil_or_break e \<Longrightarrow>
   promise_run es h = Inr (replicate (length es) (Ret_int (- EINVAL)), h)"
  by (induction es) (simp_all add: step_terminal and_then_def)

text \<open>
  C1. Take a usable promise and any sequence of fulfil and break calls (by any
  threads). The sequence runs to its end. The call number \<open>i\<close> finds the promise in
  the state \<open>hi\<close> left by the calls before it: if \<open>hi\<close> is not pending the call
  returns \<open>-EINVAL\<close> (not 0) and leaves the whole promise as it is; if \<open>hi\<close> is
  pending the call returns 0, leaves PENDING, stores its own result (fulfil) or code
  (break), and what it stored is what the promise holds after the whole sequence.
  At most one call returns 0.
\<close>

theorem promise_single_transition:
  assumes u: "usable h" and fb: "\<forall>e \<in> set es. is_fulfil_or_break e"
  shows "\<exists>rets h'. promise_run es h = Inr (rets, h') \<and> length rets = length es \<and>
           length (filter (\<lambda>r. r = Ret_int 0) rets) \<le> 1 \<and>
           (\<forall>i < length es. \<exists>ri hi hj.
              promise_run (take i es) h = Inr (ri, hi) \<and>
              promise_step (es ! i) hi = Inr (rets ! i, hj) \<and>
              (status hi \<noteq> UV_PROMISE_PENDING \<longrightarrow>
                 rets ! i = Ret_int (- EINVAL) \<and> rets ! i \<noteq> Ret_int 0 \<and> hj = hi) \<and>
              (status hi = UV_PROMISE_PENDING \<longrightarrow>
                 rets ! i = Ret_int 0 \<and> status hj \<noteq> UV_PROMISE_PENDING \<and>
                 (\<forall>t v. es ! i = Ev_fulfil t v \<longrightarrow>
                    status hj = UV_PROMISE_FULFILLED \<and> result hj = v \<and> code hj = code hi) \<and>
                 (\<forall>t c. es ! i = Ev_break t c \<longrightarrow>
                    status hj = UV_PROMISE_BROKEN \<and> code hj = c \<and> result hj = result hi) \<and>
                 status h' = status hj \<and> result h' = result hj \<and> code h' = code hj))"
proof (cases "status h = UV_PROMISE_PENDING")
  case False
  have run: "\<And>n. promise_run (take n es) h =
               Inr (replicate (length (take n es)) (Ret_int (- EINVAL)), h)"
    using u False fb by (intro run_terminal) (auto dest: in_set_takeD)
  have all: "promise_run es h = Inr (replicate (length es) (Ret_int (- EINVAL)), h)"
    using u False fb by (rule run_terminal)
  show ?thesis
  proof (intro exI conjI allI impI)
    show "promise_run es h = Inr (replicate (length es) (Ret_int (- EINVAL)), h)" by (rule all)
    show "length (replicate (length es) (Ret_int (- EINVAL))) = length es" by simp
    show "length (filter (\<lambda>r. r = Ret_int 0) (replicate (length es) (Ret_int (- EINVAL)))) \<le> 1"
      by (simp add: EINVAL_nonzero)
  next
    fix i assume i: "i < length es"
    show "promise_run (take i es) h = Inr (replicate (length (take i es)) (Ret_int (- EINVAL)), h)"
      by (rule run)
    show "promise_step (es ! i) h = Inr (replicate (length es) (Ret_int (- EINVAL)) ! i, h)"
      using i u False fb by (simp add: step_terminal)
  qed (use False in \<open>simp_all add: EINVAL_nonzero\<close>)
next
  case True
  show ?thesis
  proof (cases es)
    case Nil
    then show ?thesis by simp
  next
    case (Cons e es')
    from fb Cons have e: "is_fulfil_or_break e" and es': "\<forall>e \<in> set es'. is_fulfil_or_break e"
      by simp_all
    from step_pending [OF u True e] obtain hj where
      st: "promise_step e h = Inr (Ret_int 0, hj)" and uj: "usable hj"
      and tj: "status hj \<noteq> UV_PROMISE_PENDING"
      and wf: "\<forall>t v. e = Ev_fulfil t v \<longrightarrow>
                 status hj = UV_PROMISE_FULFILLED \<and> result hj = v \<and> code hj = code h"
      and wb: "\<forall>t c. e = Ev_break t c \<longrightarrow>
                 status hj = UV_PROMISE_BROKEN \<and> code hj = c \<and> result hj = result h"
      by blast
    have rest: "\<And>xs. \<forall>e \<in> set xs. is_fulfil_or_break e \<Longrightarrow>
                  promise_run xs hj = Inr (replicate (length xs) (Ret_int (- EINVAL)), hj)"
      using uj tj by (rule run_terminal)
    let ?rets = "Ret_int 0 # replicate (length es') (Ret_int (- EINVAL))"
    have all: "promise_run es h = Inr (?rets, hj)"
      using Cons st rest [OF es'] by (simp add: and_then_def)
    have pre: "\<And>n. promise_run (take (Suc n) es) h =
                 Inr (Ret_int 0 # replicate (length (take n es')) (Ret_int (- EINVAL)), hj)"
    proof -
      fix n
      have "\<forall>e \<in> set (take n es'). is_fulfil_or_break e"
        using es' by (auto dest: in_set_takeD)
      from rest [OF this] show "promise_run (take (Suc n) es) h =
                 Inr (Ret_int 0 # replicate (length (take n es')) (Ret_int (- EINVAL)), hj)"
        using Cons st by (simp add: and_then_def)
    qed
    have one: "length (filter (\<lambda>r. r = Ret_int 0) ?rets) \<le> 1"
      by (simp add: EINVAL_nonzero)
    have each: "\<exists>ri hi hj'.
              promise_run (take i es) h = Inr (ri, hi) \<and>
              promise_step (es ! i) hi = Inr (?rets ! i, hj') \<and>
              (status hi \<noteq> UV_PROMISE_PENDING \<longrightarrow>
                 ?rets ! i = Ret_int (- EINVAL) \<and> ?rets ! i \<noteq> Ret_int 0 \<and> hj' = hi) \<and>
              (status hi = UV_PROMISE_PENDING \<longrightarrow>
                 ?rets ! i = Ret_int 0 \<and> status hj' \<noteq> UV_PROMISE_PENDING \<and>
                 (\<forall>t v. es ! i = Ev_fulfil t v \<longrightarrow>
                    status hj' = UV_PROMISE_FULFILLED \<and> result hj' = v \<and> code hj' = code hi) \<and>
                 (\<forall>t c. es ! i = Ev_break t c \<longrightarrow>
                    status hj' = UV_PROMISE_BROKEN \<and> code hj' = c \<and> result hj' = result hi) \<and>
                 status hj = status hj' \<and> result hj = result hj' \<and> code hj = code hj')"
      if i: "i < length es" for i
    proof (cases i)
      case 0
      show ?thesis
        using 0 Cons st tj wf wb True by simp
    next
      case (Suc n)
      with i Cons have n: "n < length es'" by simp
      with es' have en: "is_fulfil_or_break (es' ! n)" by simp
      have "promise_step (es' ! n) hj = Inr (Ret_int (- EINVAL), hj)"
        using uj tj en by (rule step_terminal)
      then show ?thesis
        using Suc pre [of n] Cons n tj by (simp add: EINVAL_nonzero)
    qed
    show ?thesis
      using all one each Cons by (intro exI [of _ ?rets] exI [of _ hj]) simp
  qed
qed

theorem promise_single_transition_witness:
  "usable \<lparr>mutex = MutexFree, cond = CondLive {}, status = UV_PROMISE_PENDING,
           result = NULL, code = 0, waiting = 0\<rparr> \<and>
   is_fulfil_or_break (Ev_break 2 (- 5)) \<and> is_fulfil_or_break (Ev_fulfil 1 7) \<and>
   is_fulfil_or_break (Ev_break 3 9) \<and>
   promise_run [Ev_break 2 (- 5), Ev_fulfil 1 7, Ev_break 3 9]
     \<lparr>mutex = MutexFree, cond = CondLive {}, status = UV_PROMISE_PENDING,
      result = NULL, code = 0, waiting = 0\<rparr> =
     Inr ([Ret_int 0, Ret_int (- 22), Ret_int (- 22)],
          \<lparr>mutex = MutexFree, cond = CondLive {}, status = UV_PROMISE_BROKEN,
           result = NULL, code = - 5, waiting = 0\<rparr>)"
proof -
  let ?h = "\<lparr>mutex = MutexFree, cond = CondLive {}, status = UV_PROMISE_PENDING,
             result = NULL, code = 0, waiting = 0\<rparr>"
  let ?es = "[Ev_break 2 (- 5), Ev_fulfil 1 7, Ev_break 3 9]"
  have u: "usable ?h" by (simp add: usable_def)
  have fb: "\<forall>e \<in> set ?es. is_fulfil_or_break e" by (simp add: is_fulfil_or_break_def)
  from promise_single_transition [OF u fb] obtain rets h' where
    "promise_run ?es ?h = Inr (rets, h')" by blast
  moreover have "promise_run ?es ?h =
     Inr ([Ret_int 0, Ret_int (- 22), Ret_int (- 22)],
          \<lparr>mutex = MutexFree, cond = CondLive {}, status = UV_PROMISE_BROKEN,
           result = NULL, code = - 5, waiting = 0\<rparr>)"
    by (simp add: uv_promise_fulfil_def uv_promise_break_def prim_defs EINVAL_def)
  ultimately show ?thesis using u by (simp add: is_fulfil_or_break_def)
qed

subsection \<open>init\<close>

text \<open>
  C8. If the mutex allocation fails, \<open>uv_promise_init\<close> returns that non-zero status
  and the promise is untouched. If the mutex is allocated and the condition variable
  is not, the mutex is destroyed again and the non-zero status of the condition
  variable is returned, so neither resource is left live. If both succeed the call
  returns 0 with status PENDING, result NULL, code 0, no waiter, and both resources live.
\<close>

theorem promise_init_cases:
  "(mutex_rc \<noteq> 0 \<longrightarrow> uv_promise_init mutex_rc cond_rc h = Inr (mutex_rc, h)) \<and>
   (mutex_rc = 0 \<and> cond_rc \<noteq> 0 \<longrightarrow>
      (\<exists>h'. uv_promise_init mutex_rc cond_rc h = Inr (cond_rc, h') \<and>
            mutex h' = MutexDestroyed \<and> cond h' = cond h)) \<and>
   (mutex_rc = 0 \<and> cond_rc = 0 \<longrightarrow>
      (\<exists>h'. uv_promise_init mutex_rc cond_rc h = Inr (0, h') \<and>
            status h' = UV_PROMISE_PENDING \<and> result h' = NULL \<and> code h' = 0 \<and>
            waiting h' = 0 \<and> mutex h' = MutexFree \<and> cond h' = CondLive {}))"
  by (simp add: uv_promise_init_def prim_defs)

theorem promise_init_cases_witness:
  "uv_promise_init (- 1) 0
     \<lparr>mutex = MutexUninit, cond = CondUninit, status = UV_PROMISE_BROKEN,
      result = 4, code = 9, waiting = 3\<rparr> =
     Inr (- 1, \<lparr>mutex = MutexUninit, cond = CondUninit, status = UV_PROMISE_BROKEN,
               result = 4, code = 9, waiting = 3\<rparr>) \<and>
   (\<exists>h'. uv_promise_init 0 (- 1)
            \<lparr>mutex = MutexUninit, cond = CondUninit, status = UV_PROMISE_BROKEN,
             result = 4, code = 9, waiting = 3\<rparr> = Inr (- 1, h') \<and>
         mutex h' = MutexDestroyed \<and> cond h' = CondUninit) \<and>
   (\<exists>h'. uv_promise_init 0 0
            \<lparr>mutex = MutexUninit, cond = CondUninit, status = UV_PROMISE_BROKEN,
             result = 4, code = 9, waiting = 3\<rparr> = Inr (0, h') \<and>
         status h' = UV_PROMISE_PENDING \<and> result h' = NULL \<and> code h' = 0 \<and>
         waiting h' = 0 \<and> mutex h' = MutexFree \<and> cond h' = CondLive {})"
  using promise_init_cases [of "- 1" 0 "\<lparr>mutex = MutexUninit, cond = CondUninit,
          status = UV_PROMISE_BROKEN, result = 4, code = 9, waiting = 3\<rparr>"]
        promise_init_cases [of 0 "- 1" "\<lparr>mutex = MutexUninit, cond = CondUninit,
          status = UV_PROMISE_BROKEN, result = 4, code = 9, waiting = 3\<rparr>"]
        promise_init_cases [of 0 0 "\<lparr>mutex = MutexUninit, cond = CondUninit,
          status = UV_PROMISE_BROKEN, result = 4, code = 9, waiting = 3\<rparr>"]
  by simp

subsection \<open>trywait\<close>

text \<open>
  C5. \<open>uv_promise_trywait\<close> never makes its caller wait, whatever the promise and
  its mutex are. When another thread holds the mutex it returns PENDING/0/NULL,
  whatever the fields hold; when the mutex is free it returns the current status,
  code and result and leaves the mutex free. In both cases the promise after the
  call is the promise before it.
\<close>

theorem promise_trywait_cases:
  "(\<forall>t'. mutex h = MutexHeld t' \<longrightarrow>
       uv_promise_trywait t h =
         Inr (\<lparr>rs_status = UV_PROMISE_PENDING, rs_code = 0, rs_result = NULL\<rparr>, h)) \<and>
   (mutex h = MutexFree \<longrightarrow>
       uv_promise_trywait t h =
         Inr (\<lparr>rs_status = status h, rs_code = code h, rs_result = result h\<rparr>, h)) \<and>
   uv_promise_trywait t h \<noteq> Inl Would_block"
  by (auto simp add: uv_promise_trywait_def snapshot_def prim_defs split: uv_mutex_t.splits)

theorem promise_trywait_cases_witness:
  "uv_promise_trywait 1
     \<lparr>mutex = MutexHeld 2, cond = CondLive {}, status = UV_PROMISE_FULFILLED,
      result = 7, code = 0, waiting = 0\<rparr> =
     Inr (\<lparr>rs_status = UV_PROMISE_PENDING, rs_code = 0, rs_result = NULL\<rparr>,
          \<lparr>mutex = MutexHeld 2, cond = CondLive {}, status = UV_PROMISE_FULFILLED,
           result = 7, code = 0, waiting = 0\<rparr>) \<and>
   uv_promise_trywait 1
     \<lparr>mutex = MutexFree, cond = CondLive {}, status = UV_PROMISE_FULFILLED,
      result = 7, code = 0, waiting = 0\<rparr> =
     Inr (\<lparr>rs_status = UV_PROMISE_FULFILLED, rs_code = 0, rs_result = 7\<rparr>,
          \<lparr>mutex = MutexFree, cond = CondLive {}, status = UV_PROMISE_FULFILLED,
           result = 7, code = 0, waiting = 0\<rparr>)"
  using promise_trywait_cases [of "\<lparr>mutex = MutexHeld 2, cond = CondLive {},
          status = UV_PROMISE_FULFILLED, result = 7, code = 0, waiting = 0\<rparr>" 1]
        promise_trywait_cases [of "\<lparr>mutex = MutexFree, cond = CondLive {},
          status = UV_PROMISE_FULFILLED, result = 7, code = 0, waiting = 0\<rparr>" 1]
  by simp

subsection \<open>get\<close>

lemma get_loop_frame:
  "uv_promise_get_loop t h = Inr (r, h') \<Longrightarrow>
   status h' = status h \<and> result h' = result h \<and> code h' = code h \<and>
   (\<forall>rs. r = Get_returned rs \<longrightarrow>
      rs_status rs \<noteq> UV_PROMISE_PENDING \<and>
      rs = \<lparr>rs_status = status h', rs_code = code h', rs_result = result h'\<rparr> \<and>
      waiting h' = waiting h - 1) \<and>
   (r = Get_waiting \<longrightarrow> status h = UV_PROMISE_PENDING \<and> asleep t (cond h') \<and> waiting h' = waiting h)"
  by (auto simp add: uv_promise_get_loop_def snapshot_def prim_defs Let_def
           split: if_splits uv_cond_t.splits)

lemma get_frame:
  "uv_promise_get t h = Inr (r, h') \<Longrightarrow>
      status h' = status h \<and> result h' = result h \<and> code h' = code h \<and>
      (\<forall>rs. r = Get_returned rs \<longrightarrow>
         rs_status rs \<noteq> UV_PROMISE_PENDING \<and>
         rs = \<lparr>rs_status = status h', rs_code = code h', rs_result = result h'\<rparr> \<and>
         waiting h' = waiting h) \<and>
      (r = Get_waiting \<longrightarrow>
         status h = UV_PROMISE_PENDING \<and> asleep t (cond h') \<and> waiting h' = waiting h + 1)"
proof -
  assume "uv_promise_get t h = Inr (r, h')"
  then obtain m where "uv_promise_get_loop t (h\<lparr>mutex := m, waiting := waiting h + 1\<rparr>) = Inr (r, h')"
    by (auto simp add: uv_promise_get_def and_then_def split: sum.splits)
  from get_loop_frame [OF this] show ?thesis by auto
qed

lemma get_wakeup_frame:
  "uv_promise_get_wakeup t h = Inr (r, h') \<Longrightarrow>
      status h' = status h \<and> result h' = result h \<and> code h' = code h \<and>
      (\<forall>rs. r = Get_returned rs \<longrightarrow>
         rs_status rs \<noteq> UV_PROMISE_PENDING \<and>
         rs = \<lparr>rs_status = status h', rs_code = code h', rs_result = result h'\<rparr> \<and>
         waiting h' = waiting h - 1) \<and>
      (r = Get_waiting \<longrightarrow>
         status h = UV_PROMISE_PENDING \<and> asleep t (cond h') \<and> waiting h' = waiting h)"
proof -
  assume "uv_promise_get_wakeup t h = Inr (r, h')"
  then obtain m where "uv_promise_get_loop t (h\<lparr>mutex := m\<rparr>) = Inr (r, h')"
    by (auto simp add: uv_promise_get_wakeup_def and_then_def split: sum.splits)
  from get_loop_frame [OF this] show ?thesis by auto
qed

lemma get_usable:
  "mutex h = MutexFree \<and> cond h = CondLive S \<Longrightarrow>
      (status h = UV_PROMISE_PENDING \<longrightarrow>
         uv_promise_get t h =
           Inr (Get_waiting, h\<lparr>cond := CondLive (insert t S), waiting := waiting h + 1\<rparr>)) \<and>
      (status h \<noteq> UV_PROMISE_PENDING \<longrightarrow>
         uv_promise_get t h =
           Inr (Get_returned \<lparr>rs_status = status h, rs_code = code h,
                               rs_result = result h\<rparr>, h)) \<and>
      (t \<in> S \<longrightarrow> uv_promise_get_wakeup t h = Inl Would_block) \<and>
      (t \<notin> S \<and> status h = UV_PROMISE_PENDING \<longrightarrow>
         uv_promise_get_wakeup t h = Inr (Get_waiting, h\<lparr>cond := CondLive (insert t S)\<rparr>)) \<and>
      (t \<notin> S \<and> status h \<noteq> UV_PROMISE_PENDING \<longrightarrow>
         uv_promise_get_wakeup t h =
           Inr (Get_returned \<lparr>rs_status = status h, rs_code = code h,
                               rs_result = result h\<rparr>,
                h\<lparr>waiting := waiting h - 1\<rparr>))"
  by (simp add: uv_promise_get_def uv_promise_get_wakeup_def uv_promise_get_loop_def
       snapshot_def prim_defs)

text \<open>
  C9. \<open>uv_promise_get\<close> and the wake-up of a sleeping \<open>uv_promise_get\<close> never
  change status, result or code. Whenever the call returns, the snapshot it returns
  has a status other than PENDING and holds exactly the status, code and result stored
  in the promise, and the waiter count is back to what it was before the call.
  Whenever it goes (back) to sleep, the status is PENDING and the caller is counted
  as a waiter. On a usable promise: the call on a pending promise adds one to the
  waiter count and sleeps; on a promise that is not pending it returns at once; a
  sleeping caller stays blocked until it is woken; a woken caller sleeps again if
  the status is still PENDING and otherwise takes one off the waiter count and
  returns the snapshot.
\<close>

theorem promise_get_snapshot:
  "(\<forall>r h'. uv_promise_get t h = Inr (r, h') \<longrightarrow>
      status h' = status h \<and> result h' = result h \<and> code h' = code h \<and>
      (\<forall>rs. r = Get_returned rs \<longrightarrow>
         rs_status rs \<noteq> UV_PROMISE_PENDING \<and>
         rs = \<lparr>rs_status = status h', rs_code = code h', rs_result = result h'\<rparr> \<and>
         waiting h' = waiting h) \<and>
      (r = Get_waiting \<longrightarrow>
         status h = UV_PROMISE_PENDING \<and> asleep t (cond h') \<and> waiting h' = waiting h + 1)) \<and>
   (\<forall>r h'. uv_promise_get_wakeup t h = Inr (r, h') \<longrightarrow>
      status h' = status h \<and> result h' = result h \<and> code h' = code h \<and>
      (\<forall>rs. r = Get_returned rs \<longrightarrow>
         rs_status rs \<noteq> UV_PROMISE_PENDING \<and>
         rs = \<lparr>rs_status = status h', rs_code = code h', rs_result = result h'\<rparr> \<and>
         waiting h' = waiting h - 1) \<and>
      (r = Get_waiting \<longrightarrow>
         status h = UV_PROMISE_PENDING \<and> asleep t (cond h') \<and> waiting h' = waiting h)) \<and>
   (\<forall>S. mutex h = MutexFree \<and> cond h = CondLive S \<longrightarrow>
      (status h = UV_PROMISE_PENDING \<longrightarrow>
         uv_promise_get t h =
           Inr (Get_waiting, h\<lparr>cond := CondLive (insert t S), waiting := waiting h + 1\<rparr>)) \<and>
      (status h \<noteq> UV_PROMISE_PENDING \<longrightarrow>
         uv_promise_get t h =
           Inr (Get_returned \<lparr>rs_status = status h, rs_code = code h,
                               rs_result = result h\<rparr>, h)) \<and>
      (t \<in> S \<longrightarrow> uv_promise_get_wakeup t h = Inl Would_block) \<and>
      (t \<notin> S \<and> status h = UV_PROMISE_PENDING \<longrightarrow>
         uv_promise_get_wakeup t h = Inr (Get_waiting, h\<lparr>cond := CondLive (insert t S)\<rparr>)) \<and>
      (t \<notin> S \<and> status h \<noteq> UV_PROMISE_PENDING \<longrightarrow>
         uv_promise_get_wakeup t h =
           Inr (Get_returned \<lparr>rs_status = status h, rs_code = code h,
                               rs_result = result h\<rparr>,
                h\<lparr>waiting := waiting h - 1\<rparr>)))"
proof (intro conjI)
  show "\<forall>r h'. uv_promise_get t h = Inr (r, h') \<longrightarrow>
      status h' = status h \<and> result h' = result h \<and> code h' = code h \<and>
      (\<forall>rs. r = Get_returned rs \<longrightarrow>
         rs_status rs \<noteq> UV_PROMISE_PENDING \<and>
         rs = \<lparr>rs_status = status h', rs_code = code h', rs_result = result h'\<rparr> \<and>
         waiting h' = waiting h) \<and>
      (r = Get_waiting \<longrightarrow>
         status h = UV_PROMISE_PENDING \<and> asleep t (cond h') \<and> waiting h' = waiting h + 1)"
    using get_frame [of t h] by blast
  show "\<forall>r h'. uv_promise_get_wakeup t h = Inr (r, h') \<longrightarrow>
      status h' = status h \<and> result h' = result h \<and> code h' = code h \<and>
      (\<forall>rs. r = Get_returned rs \<longrightarrow>
         rs_status rs \<noteq> UV_PROMISE_PENDING \<and>
         rs = \<lparr>rs_status = status h', rs_code = code h', rs_result = result h'\<rparr> \<and>
         waiting h' = waiting h - 1) \<and>
      (r = Get_waiting \<longrightarrow>
         status h = UV_PROMISE_PENDING \<and> asleep t (cond h') \<and> waiting h' = waiting h)"
    using get_wakeup_frame [of t h] by blast
  show "\<forall>S. mutex h = MutexFree \<and> cond h = CondLive S \<longrightarrow>
      (status h = UV_PROMISE_PENDING \<longrightarrow>
         uv_promise_get t h =
           Inr (Get_waiting, h\<lparr>cond := CondLive (insert t S), waiting := waiting h + 1\<rparr>)) \<and>
      (status h \<noteq> UV_PROMISE_PENDING \<longrightarrow>
         uv_promise_get t h =
           Inr (Get_returned \<lparr>rs_status = status h, rs_code = code h,
                               rs_result = result h\<rparr>, h)) \<and>
      (t \<in> S \<longrightarrow> uv_promise_get_wakeup t h = Inl Would_block) \<and>
      (t \<notin> S \<and> status h = UV_PROMISE_PENDING \<longrightarrow>
         uv_promise_get_wakeup t h = Inr (Get_waiting, h\<lparr>cond := CondLive (insert t S)\<rparr>)) \<and>
      (t \<notin> S \<and> status h \<noteq> UV_PROMISE_PENDING \<longrightarrow>
         uv_promise_get_wakeup t h =
           Inr (Get_returned \<lparr>rs_status = status h, rs_code = code h,
                               rs_result = result h\<rparr>,
                h\<lparr>waiting := waiting h - 1\<rparr>))"
    using get_usable [of h _ t] by blast
qed

theorem promise_get_snapshot_witness:
  "uv_promise_get 1
     \<lparr>mutex = MutexFree, cond = CondLive {}, status = UV_PROMISE_PENDING,
      result = NULL, code = 0, waiting = 0\<rparr> =
     Inr (Get_waiting,
          \<lparr>mutex = MutexFree, cond = CondLive {1}, status = UV_PROMISE_PENDING,
           result = NULL, code = 0, waiting = 1\<rparr>) \<and>
   uv_promise_get 1
     \<lparr>mutex = MutexFree, cond = CondLive {}, status = UV_PROMISE_BROKEN,
      result = NULL, code = - 5, waiting = 0\<rparr> =
     Inr (Get_returned \<lparr>rs_status = UV_PROMISE_BROKEN, rs_code = - 5, rs_result = NULL\<rparr>,
          \<lparr>mutex = MutexFree, cond = CondLive {}, status = UV_PROMISE_BROKEN,
           result = NULL, code = - 5, waiting = 0\<rparr>) \<and>
   uv_promise_get_wakeup 1
     \<lparr>mutex = MutexFree, cond = CondLive {}, status = UV_PROMISE_FULFILLED,
      result = 7, code = 0, waiting = 1\<rparr> =
     Inr (Get_returned \<lparr>rs_status = UV_PROMISE_FULFILLED, rs_code = 0, rs_result = 7\<rparr>,
          \<lparr>mutex = MutexFree, cond = CondLive {}, status = UV_PROMISE_FULFILLED,
           result = 7, code = 0, waiting = 0\<rparr>)"
  using promise_get_snapshot [of 1 "\<lparr>mutex = MutexFree, cond = CondLive {},
          status = UV_PROMISE_PENDING, result = NULL, code = 0, waiting = 0\<rparr>"]
        promise_get_snapshot [of 1 "\<lparr>mutex = MutexFree, cond = CondLive {},
          status = UV_PROMISE_BROKEN, result = NULL, code = - 5, waiting = 0\<rparr>"]
        promise_get_snapshot [of 1 "\<lparr>mutex = MutexFree, cond = CondLive {},
          status = UV_PROMISE_FULFILLED, result = 7, code = 0, waiting = 1\<rparr>"]
  by simp

text \<open>
  Two runs: thread 1 waits and thread 2 fulfils with the value at address 7; thread 2
  breaks with code -5 before thread 1 asks.
\<close>

lemma get_then_fulfil:
  "promise_run [Ev_get 1, Ev_fulfil 2 7, Ev_get_wakeup 1]
     \<lparr>mutex = MutexFree, cond = CondLive {}, status = UV_PROMISE_PENDING,
      result = NULL, code = 0, waiting = 0\<rparr> =
   Inr ([Ret_waiting, Ret_int 0,
         Ret_snapshot \<lparr>rs_status = UV_PROMISE_FULFILLED, rs_code = 0, rs_result = 7\<rparr>],
        \<lparr>mutex = MutexFree, cond = CondLive {}, status = UV_PROMISE_FULFILLED,
         result = 7, code = 0, waiting = 0\<rparr>)"
  by (simp add: uv_promise_get_def uv_promise_get_wakeup_def uv_promise_get_loop_def
        uv_promise_fulfil_def ret_of_get_def snapshot_def prim_defs)

lemma break_then_get:
  "promise_run [Ev_break 2 (- 5), Ev_get 1]
     \<lparr>mutex = MutexFree, cond = CondLive {}, status = UV_PROMISE_PENDING,
      result = NULL, code = 0, waiting = 0\<rparr> =
   Inr ([Ret_int 0,
         Ret_snapshot \<lparr>rs_status = UV_PROMISE_BROKEN, rs_code = - 5, rs_result = NULL\<rparr>],
        \<lparr>mutex = MutexFree, cond = CondLive {}, status = UV_PROMISE_BROKEN,
         result = NULL, code = - 5, waiting = 0\<rparr>)"
  by (simp add: uv_promise_get_def uv_promise_get_loop_def uv_promise_break_def
        ret_of_get_def snapshot_def prim_defs)

subsection \<open>A pending promise stores nothing\<close>

lemma fulfil_clean:
  "uv_promise_fulfil t h v = Inr (rc, h') \<Longrightarrow> pending_clean h \<Longrightarrow> pending_clean h'"
  by (auto simp add: uv_promise_fulfil_def pending_clean_def and_then_def Let_def
           split: sum.splits if_splits)

lemma break_clean:
  "uv_promise_break t h c = Inr (rc, h') \<Longrightarrow> pending_clean h \<Longrightarrow> pending_clean h'"
  by (auto simp add: uv_promise_break_def pending_clean_def and_then_def Let_def
           split: sum.splits if_splits)

lemma trywait_clean:
  "uv_promise_trywait t h = Inr (rs, h') \<Longrightarrow> pending_clean h \<Longrightarrow> pending_clean h'"
  by (auto simp add: uv_promise_trywait_def pending_clean_def and_then_def Let_def
           split: sum.splits if_splits prod.splits)

lemma destroy_locked_clean:
  "uv_promise_destroy_locked t h = Inr h' \<Longrightarrow> pending_clean h \<Longrightarrow> pending_clean h'"
  by (auto simp add: uv_promise_destroy_locked_def pending_clean_def and_then_def Let_def
           split: sum.splits if_splits)

lemma destroy_release_clean:
  "uv_promise_destroy_release h = Inr h' \<Longrightarrow> pending_clean h \<Longrightarrow> pending_clean h'"
  by (auto simp add: uv_promise_destroy_release_def pending_clean_def and_then_def Let_def
           split: sum.splits if_splits)

lemma destroy_clean:
  "uv_promise_destroy t h = Inr h' \<Longrightarrow> pending_clean h \<Longrightarrow> pending_clean h'"
  by (auto simp add: uv_promise_destroy_def and_then_def split: sum.splits
           dest: destroy_locked_clean destroy_release_clean)

lemma get_clean:
  "uv_promise_get t h = Inr (r, h') \<Longrightarrow> pending_clean h \<Longrightarrow> pending_clean h'"
  using get_frame [of t h r h'] by (simp add: pending_clean_def)

lemma get_wakeup_clean:
  "uv_promise_get_wakeup t h = Inr (r, h') \<Longrightarrow> pending_clean h \<Longrightarrow> pending_clean h'"
  using get_wakeup_frame [of t h r h'] by (simp add: pending_clean_def)

lemma step_pending_clean:
  assumes "promise_step e h = Inr (r, h')" and "pending_clean h"
  shows "pending_clean h'"
proof (cases e)
  case (Ev_fulfil t v)
  with assms show ?thesis
    by (auto simp add: and_then_def split: sum.splits dest: fulfil_clean)
next
  case (Ev_break t c)
  with assms show ?thesis
    by (auto simp add: and_then_def split: sum.splits dest: break_clean)
next
  case (Ev_trywait t)
  with assms show ?thesis
    by (auto simp add: and_then_def split: sum.splits dest: trywait_clean)
next
  case (Ev_get t)
  with assms show ?thesis
    by (auto simp add: and_then_def ret_of_get_def split: sum.splits get_progress.splits
             dest: get_clean)
next
  case (Ev_get_wakeup t)
  with assms show ?thesis
    by (auto simp add: and_then_def ret_of_get_def split: sum.splits get_progress.splits
             dest: get_wakeup_clean)
next
  case (Ev_spurious t)
  with assms show ?thesis
    by (auto simp add: pending_clean_def split: uv_cond_t.splits)
next
  case (Ev_destroy t)
  with assms show ?thesis
    by (auto simp add: and_then_def split: sum.splits dest: destroy_clean)
next
  case (Ev_destroy_locked t)
  with assms show ?thesis
    by (auto simp add: and_then_def split: sum.splits dest: destroy_locked_clean)
next
  case (Ev_destroy_release t)
  with assms show ?thesis
    by (auto simp add: and_then_def split: sum.splits dest: destroy_release_clean)
qed

lemma run_pending_clean:
  "promise_run es h = Inr (rets, h') \<Longrightarrow> pending_clean h \<Longrightarrow> pending_clean h'"
proof (induction es arbitrary: h rets)
  case Nil
  then show ?case by simp
next
  case (Cons e es)
  from Cons.prems(1) obtain r h1 rs where
    s: "promise_step e h = Inr (r, h1)" and rest: "promise_run es h1 = Inr (rs, h')"
    by (auto simp add: and_then_def split: sum.splits)
  from step_pending_clean [OF s Cons.prems(2)] have "pending_clean h1" .
  then show ?case by (rule Cons.IH [OF rest])
qed


text \<open>
  C10. After a successful \<open>uv_promise_init\<close>, whatever fulfil, break, get, trywait
  and destroy calls the threads make, a promise whose status is PENDING has code 0
  and result NULL. So, on a promise that is still pending, \<open>uv_promise_trywait\<close>
  answers the same PENDING/0/NULL whether it finds the mutex free (and reads the
  fields) or held by another thread (and does not).
\<close>

theorem promise_pending_stores_nothing:
  assumes init: "uv_promise_init mutex_rc cond_rc h0 = Inr (0, h)"
      and run: "promise_run es h = Inr (rets, h')"
  shows "(status h = UV_PROMISE_PENDING \<and> code h = 0 \<and> result h = NULL) \<and>
         (status h' = UV_PROMISE_PENDING \<longrightarrow>
            code h' = 0 \<and> result h' = NULL \<and>
            uv_promise_trywait t (h'\<lparr>mutex := MutexFree\<rparr>) =
              Inr (\<lparr>rs_status = UV_PROMISE_PENDING, rs_code = 0, rs_result = NULL\<rparr>,
                   h'\<lparr>mutex := MutexFree\<rparr>) \<and>
            uv_promise_trywait t (h'\<lparr>mutex := MutexHeld t'\<rparr>) =
              Inr (\<lparr>rs_status = UV_PROMISE_PENDING, rs_code = 0, rs_result = NULL\<rparr>,
                   h'\<lparr>mutex := MutexHeld t'\<rparr>))"
proof -
  from init have h: "status h = UV_PROMISE_PENDING \<and> code h = 0 \<and> result h = NULL"
    by (auto simp add: uv_promise_init_def prim_defs Let_def split: if_splits)
  then have "pending_clean h" by (simp add: pending_clean_def)
  with run have "pending_clean h'" by (rule run_pending_clean)
  then have "status h' = UV_PROMISE_PENDING \<longrightarrow>
            code h' = 0 \<and> result h' = NULL \<and>
            uv_promise_trywait t (h'\<lparr>mutex := MutexFree\<rparr>) =
              Inr (\<lparr>rs_status = UV_PROMISE_PENDING, rs_code = 0, rs_result = NULL\<rparr>,
                   h'\<lparr>mutex := MutexFree\<rparr>) \<and>
            uv_promise_trywait t (h'\<lparr>mutex := MutexHeld t'\<rparr>) =
              Inr (\<lparr>rs_status = UV_PROMISE_PENDING, rs_code = 0, rs_result = NULL\<rparr>,
                   h'\<lparr>mutex := MutexHeld t'\<rparr>)"
    by (simp add: pending_clean_def uv_promise_trywait_def snapshot_def prim_defs)
  with h show ?thesis by simp
qed

theorem promise_pending_stores_nothing_witness:
  "uv_promise_init 0 0
     \<lparr>mutex = MutexUninit, cond = CondUninit, status = UV_PROMISE_BROKEN,
      result = 4, code = 9, waiting = 3\<rparr> =
     Inr (0, \<lparr>mutex = MutexFree, cond = CondLive {}, status = UV_PROMISE_PENDING,
              result = NULL, code = 0, waiting = 0\<rparr>) \<and>
   promise_run [Ev_get 1, Ev_trywait 2]
     \<lparr>mutex = MutexFree, cond = CondLive {}, status = UV_PROMISE_PENDING,
      result = NULL, code = 0, waiting = 0\<rparr> =
     Inr ([Ret_waiting,
           Ret_snapshot \<lparr>rs_status = UV_PROMISE_PENDING, rs_code = 0, rs_result = NULL\<rparr>],
          \<lparr>mutex = MutexFree, cond = CondLive {1}, status = UV_PROMISE_PENDING,
           result = NULL, code = 0, waiting = 1\<rparr>) \<and>
   uv_promise_trywait 2
     \<lparr>mutex = MutexHeld 3, cond = CondLive {1}, status = UV_PROMISE_PENDING,
      result = NULL, code = 0, waiting = 1\<rparr> =
     Inr (\<lparr>rs_status = UV_PROMISE_PENDING, rs_code = 0, rs_result = NULL\<rparr>,
          \<lparr>mutex = MutexHeld 3, cond = CondLive {1}, status = UV_PROMISE_PENDING,
           result = NULL, code = 0, waiting = 1\<rparr>)"
proof -
  let ?u = "\<lparr>mutex = MutexUninit, cond = CondUninit, status = UV_PROMISE_BROKEN,
      result = 4, code = 9, waiting = 3\<rparr>"
  let ?h = "\<lparr>mutex = MutexFree, cond = CondLive {}, status = UV_PROMISE_PENDING,
              result = NULL, code = 0, waiting = 0\<rparr>"
  let ?h' = "\<lparr>mutex = MutexFree, cond = CondLive {1}, status = UV_PROMISE_PENDING,
           result = NULL, code = 0, waiting = 1\<rparr>"
  have i: "uv_promise_init 0 0 ?u = Inr (0, ?h)"
    by (simp add: uv_promise_init_def prim_defs)
  have r: "promise_run [Ev_get 1, Ev_trywait 2] ?h =
     Inr ([Ret_waiting,
           Ret_snapshot \<lparr>rs_status = UV_PROMISE_PENDING, rs_code = 0, rs_result = NULL\<rparr>], ?h')"
    by (simp add: uv_promise_get_def uv_promise_get_loop_def uv_promise_trywait_def
          ret_of_get_def snapshot_def prim_defs)
  have "status ?h' = UV_PROMISE_PENDING" by simp
  with promise_pending_stores_nothing [OF i r, of 2 3]
  have "uv_promise_trywait 2 (?h'\<lparr>mutex := MutexHeld 3\<rparr>) =
          Inr (\<lparr>rs_status = UV_PROMISE_PENDING, rs_code = 0, rs_result = NULL\<rparr>,
               ?h'\<lparr>mutex := MutexHeld 3\<rparr>)"
    by blast
  then have t: "uv_promise_trywait 2
     \<lparr>mutex = MutexHeld 3, cond = CondLive {1}, status = UV_PROMISE_PENDING,
      result = NULL, code = 0, waiting = 1\<rparr> =
     Inr (\<lparr>rs_status = UV_PROMISE_PENDING, rs_code = 0, rs_result = NULL\<rparr>,
          \<lparr>mutex = MutexHeld 3, cond = CondLive {1}, status = UV_PROMISE_PENDING,
           result = NULL, code = 0, waiting = 1\<rparr>)"
    by simp
  from i r t show ?thesis by blast
qed

subsection \<open>destroy\<close>

lemma destroy_locked_cases:
  "mutex h = MutexFree \<Longrightarrow> cond h = CondLive S \<Longrightarrow>
   uv_promise_destroy_locked t h =
     Inr (h\<lparr>status := (if status h = UV_PROMISE_PENDING then UV_PROMISE_CANCELLED else status h),
            cond := (if waiting h > 0 then CondLive {} else CondLive S)\<rparr>)"
  by (simp add: uv_promise_destroy_locked_def prim_defs)

lemma destroy_then_wakeup_undefined:
  assumes m: "mutex h = MutexFree" and c: "cond h = CondLive S"
      and w: "0 < waiting h \<or> S = {}"
  shows "\<exists>h'. uv_promise_destroy t' h = Inr h' \<and>
              uv_promise_get_wakeup t h' = Inl Undefined_behaviour"
proof -
  from w have "uv_promise_destroy t' h =
      Inr (h\<lparr>status := (if status h = UV_PROMISE_PENDING then UV_PROMISE_CANCELLED
                           else status h),
             cond := CondDestroyed, mutex := MutexDestroyed\<rparr>)"
    by (auto simp add: uv_promise_destroy_def destroy_locked_cases [OF m c]
          uv_promise_destroy_release_def m prim_defs)
  then show ?thesis
    by (simp add: uv_promise_get_wakeup_def prim_defs)
qed

lemma destroy_then_wakeup_in_time:
  "promise_run [Ev_get 1, Ev_destroy_locked 2, Ev_get_wakeup 1, Ev_destroy_release 2]
     \<lparr>mutex = MutexFree, cond = CondLive {}, status = UV_PROMISE_PENDING,
      result = NULL, code = 0, waiting = 0\<rparr> =
   Inr ([Ret_waiting, Ret_void,
         Ret_snapshot \<lparr>rs_status = UV_PROMISE_CANCELLED, rs_code = 0, rs_result = NULL\<rparr>,
         Ret_void],
        \<lparr>mutex = MutexDestroyed, cond = CondDestroyed, status = UV_PROMISE_CANCELLED,
         result = NULL, code = 0, waiting = 0\<rparr>)"
  by (simp add: uv_promise_get_def uv_promise_get_wakeup_def uv_promise_get_loop_def
        uv_promise_destroy_locked_def uv_promise_destroy_release_def
        ret_of_get_def snapshot_def prim_defs)

text \<open>
  C2. Thread 1 calls \<open>uv_promise_get\<close> on a pending promise and sleeps; thread 2
  calls \<open>uv_promise_destroy\<close>, which sets CANCELLED, wakes thread 1, unlocks, and
  goes on to destroy the mutex and the condition variable. When thread 1 then
  continues inside \<open>uv_cond_wait\<close> it has to take a mutex that is already destroyed:
  it never reads the status CANCELLED.
\<close>

theorem promise_destroy_before_wakeup:
  "promise_run [Ev_get 1, Ev_destroy 2]
     \<lparr>mutex = MutexFree, cond = CondLive {}, status = UV_PROMISE_PENDING,
      result = NULL, code = 0, waiting = 0\<rparr> =
     Inr ([Ret_waiting, Ret_void],
          \<lparr>mutex = MutexDestroyed, cond = CondDestroyed, status = UV_PROMISE_CANCELLED,
           result = NULL, code = 0, waiting = 1\<rparr>) \<and>
   promise_run [Ev_get 1, Ev_destroy 2, Ev_get_wakeup 1]
     \<lparr>mutex = MutexFree, cond = CondLive {}, status = UV_PROMISE_PENDING,
      result = NULL, code = 0, waiting = 0\<rparr> = Inl Undefined_behaviour"
  by (simp add: uv_promise_get_def uv_promise_get_wakeup_def uv_promise_get_loop_def
        uv_promise_destroy_def uv_promise_destroy_locked_def uv_promise_destroy_release_def
        ret_of_get_def snapshot_def prim_defs)

section \<open>Properties of the reactor\<close>

subsection \<open>Flags and memory updates\<close>

lemma flag_or_same: "n < 32 \<Longrightarrow> ((f::32 word) OR 2 ^ n) AND 2 ^ n \<noteq> 0"
  by (simp add: and_exp_eq_0_iff_not_bit bit_simps)

lemma flag_or_other:
  "m \<noteq> n \<Longrightarrow> (((f::32 word) OR 2 ^ m) AND 2 ^ n = 0) = (f AND 2 ^ n = 0)"
  by (auto simp add: and_exp_eq_0_iff_not_bit bit_simps dest: bit_imp_le_length)

lemma flag_clear_same: "((f::32 word) AND NOT (2 ^ n)) AND 2 ^ n = 0"
  by (simp add: and_exp_eq_0_iff_not_bit bit_simps)

lemma flag_clear_other:
  "m \<noteq> n \<Longrightarrow> (((f::32 word) AND NOT (2 ^ m)) AND 2 ^ n = 0) = (f AND 2 ^ n = 0)"
  by (auto simp add: and_exp_eq_0_iff_not_bit bit_simps dest: bit_imp_le_length)

lemma closing_bit: "UV_CLOSING = 2 ^ 0" by (simp add: UV_CLOSING_def)

lemma closed_bit: "UV_CLOSED = 2 ^ 1" by (simp add: UV_CLOSED_def)

lemma pending_bit: "UV__PENDING = 2 ^ 11" by (simp add: UV__PENDING_def)

lemma flags_nonzero [simp]: "UV_CLOSING \<noteq> 0" "UV_CLOSED \<noteq> 0" "UV__PENDING \<noteq> 0"
  by (simp_all add: UV_CLOSING_def UV_CLOSED_def UV__PENDING_def)

lemma closed_set [simp]: "(f OR UV_CLOSED) AND UV_CLOSED \<noteq> 0"
  unfolding closed_bit by (rule flag_or_same) simp

lemma closed_keeps_closing [simp]: "((f OR UV_CLOSED) AND UV_CLOSING = 0) = (f AND UV_CLOSING = 0)"
  unfolding closed_bit closing_bit by (rule flag_or_other) simp

lemma closed_keeps_pending [simp]: "((f OR UV_CLOSED) AND UV__PENDING = 0) = (f AND UV__PENDING = 0)"
  unfolding closed_bit pending_bit by (rule flag_or_other) simp

lemma closing_set [simp]: "(f OR UV_CLOSING) AND UV_CLOSING \<noteq> 0"
  unfolding closing_bit by (rule flag_or_same) simp

lemma closing_keeps_closed [simp]: "((f OR UV_CLOSING) AND UV_CLOSED = 0) = (f AND UV_CLOSED = 0)"
  unfolding closed_bit closing_bit by (rule flag_or_other) simp

lemma closing_keeps_pending [simp]: "((f OR UV_CLOSING) AND UV__PENDING = 0) = (f AND UV__PENDING = 0)"
  unfolding closing_bit pending_bit by (rule flag_or_other) simp

lemma pending_set [simp]: "(f OR UV__PENDING) AND UV__PENDING \<noteq> 0"
  unfolding pending_bit by (rule flag_or_same) simp

lemma pending_keeps_closing [simp]: "((f OR UV__PENDING) AND UV_CLOSING = 0) = (f AND UV_CLOSING = 0)"
  unfolding closing_bit pending_bit by (rule flag_or_other) simp

lemma pending_keeps_closed [simp]: "((f OR UV__PENDING) AND UV_CLOSED = 0) = (f AND UV_CLOSED = 0)"
  unfolding closed_bit pending_bit by (rule flag_or_other) simp

lemma unpending_clear [simp]: "(f AND NOT UV__PENDING) AND UV__PENDING = 0"
  unfolding pending_bit by (rule flag_clear_same)

lemma unpending_keeps_closing [simp]:
  "((f AND NOT UV__PENDING) AND UV_CLOSING = 0) = (f AND UV_CLOSING = 0)"
  unfolding closing_bit pending_bit by (rule flag_clear_other) simp

lemma unpending_keeps_closed [simp]:
  "((f AND NOT UV__PENDING) AND UV_CLOSED = 0) = (f AND UV_CLOSED = 0)"
  unfolding closed_bit pending_bit by (rule flag_clear_other) simp

lemma handle_at_upd_same [simp]: "handle_at (upd_handle h f w) h = f (handle_at w h)"
  by (simp add: handle_at_def upd_handle_def)

lemma handle_at_upd_other [simp]: "x \<noteq> h \<Longrightarrow> handle_at (upd_handle h f w) x = handle_at w x"
  by (simp add: handle_at_def upd_handle_def)

lemma loop_of_upd_handle [simp]: "loop_of (upd_handle h f w) = loop_of w"
  by (simp add: loop_of_def upd_handle_def)

lemma snd_upd_handle [simp]: "snd (upd_handle h f w) = snd w"
  by (simp add: upd_handle_def)

lemma snd_upd_loop [simp]: "snd (upd_loop f w) = snd w"
  by (simp add: upd_loop_def)

lemma handle_at_upd_loop [simp]: "handle_at (upd_loop f w) h = handle_at w h"
  by (simp add: handle_at_def upd_loop_def)

lemma loop_of_upd_loop [simp]: "loop_of (upd_loop f w) = f (loop_of w)"
  by (simp add: loop_of_def upd_loop_def)

lemma snd_call [simp]: "snd (call ext c w) = snd w @ [c]"
  by (simp add: call_def)

lemma uv__is_active_upd_handle [simp]: "uv__is_active (upd_handle h f w) x = uv__is_active w x"
  by (simp add: uv__is_active_def)

lemma upd_handle_twice [simp]:
  "upd_handle p f (upd_handle p g w) = upd_handle p (\<lambda>x. f (g x)) w"
  by (simp add: upd_handle_def)

lemma snd_fold_call [simp]: "snd (fold (call ext) cs w) = snd w @ cs"
  by (induction cs arbitrary: w) simp_all

lemmas reactor_defs = call_def handle_at_def loop_of_def upd_handle_def upd_loop_def
  uv__has_pending_handles_def uv__has_active_handles_def uv__has_active_reqs_def
  uv__is_active_def uv__should_block_def uv__poll_def

lemmas flag_defs = UV_CLOSING_def UV_CLOSED_def UV__PENDING_def UV__REF_def

lemmas eval_defs = run_pending_body_def uv__finish_close_def finish_close_release_def
  uv_close_def uv__make_pending_def reactor_defs Let_def flag_defs no_handle_def
  quiet_env_def

subsection \<open>The close finalizer\<close>

lemma finish_close_asserts:
  "uv__is_active w h \<or> flags (handle_at w h) AND UV_CLOSING = 0 \<or>
   flags (handle_at w h) AND UV_CLOSED \<noteq> 0 \<Longrightarrow>
   uv__finish_close ext h w = Inl Assertion_failed"
  by (auto simp add: uv__finish_close_def)

lemma release_ok:
  "t \<noteq> UV_UNKNOWN_HANDLE \<Longrightarrow> type (handle_at w h) = t \<Longrightarrow>
   (is_stream t \<longrightarrow> \<not> read_watcher_active (handle_at w h) \<and>
      \<not> write_watcher_active (handle_at w h) \<and> fd (handle_at w h) = - 1) \<Longrightarrow>
   finish_close_release ext h w = Inr (fold (call ext) (release_calls t h) w)"
  by (cases t) (simp_all add: finish_close_release_def release_calls_def is_stream_def)

lemma release_fails:
  "type (handle_at w h) = t \<Longrightarrow>
   t = UV_UNKNOWN_HANDLE \<or>
   is_stream t \<and> (read_watcher_active (handle_at w h) \<or>
      write_watcher_active (handle_at w h) \<or> fd (handle_at w h) \<noteq> - 1) \<Longrightarrow>
   finish_close_release ext h w = Inl Assertion_failed"
  by (cases t) (auto simp add: finish_close_release_def is_stream_def)

lemma fold_call_keeps_closed:
  "keeps_closed ext \<Longrightarrow> flags (handle_at w x) AND UV_CLOSED \<noteq> 0 \<Longrightarrow>
   flags (handle_at (fold (call ext) cs w) x) AND UV_CLOSED \<noteq> 0"
proof (induction cs arbitrary: w)
  case Nil
  then show ?case by simp
next
  case (Cons c cs)
  from Cons.prems have "flags (handle_at (call ext c w) x) AND UV_CLOSED \<noteq> 0"
    by (simp add: keeps_closed_def handle_at_def call_def)
  from Cons.IH [OF Cons.prems(1) this] show ?case by simp
qed

lemma release_calls_only:
  "finish_close_release ext p w = Inr w' \<Longrightarrow> \<exists>cs. w' = fold (call ext) cs w"
  by (cases "type (handle_at w p)")
     (auto simp add: finish_close_release_def split: if_splits
           intro: exI [of _ "[]"] exI [of _ "[Uv__udp_finish_close p]"]
                  exI [of _ "[Uv__stream_destroy p]"])

lemma finish_close_calls_only:
  assumes "uv__finish_close ext p w = Inr w'"
  shows "\<exists>cs. w' = fold (call ext) cs
                     (upd_handle p (\<lambda>x. x\<lparr>flags := flags x OR UV_CLOSED\<rparr>) w)"
proof -
  let ?w1 = "upd_handle p (\<lambda>x. x\<lparr>flags := flags x OR UV_CLOSED\<rparr>) w"
  from assms obtain w2 where
    rel: "finish_close_release ext p ?w1 = Inr w2" and
    w': "w' = call ext (Uv__handle_unref p)
               (case close_cb (handle_at w2 p) of
                  Some cb \<Rightarrow> call ext (Close_cb cb p) w2 | None \<Rightarrow> w2)"
    by (auto simp add: uv__finish_close_def Let_def split: if_splits sum.splits)
  from release_calls_only [OF rel] obtain cs where w2: "w2 = fold (call ext) cs ?w1"
    by blast
  show ?thesis
  proof (cases "close_cb (handle_at w2 p)")
    case None
    with w' w2 have "w' = fold (call ext) (cs @ [Uv__handle_unref p]) ?w1" by simp
    then show ?thesis by blast
  next
    case (Some cb)
    with w' w2 have "w' = fold (call ext) (cs @ [Close_cb cb p, Uv__handle_unref p]) ?w1"
      by simp
    then show ?thesis by blast
  qed
qed

lemma finish_close_sets_closed:
  assumes k: "keeps_closed ext" and f: "uv__finish_close ext p w = Inr w'"
  shows "flags (handle_at w' p) AND UV_CLOSED \<noteq> 0"
proof -
  from finish_close_calls_only [OF f] obtain cs where
    w': "w' = fold (call ext) cs (upd_handle p (\<lambda>x. x\<lparr>flags := flags x OR UV_CLOSED\<rparr>) w)"
    by blast
  have "flags (handle_at (upd_handle p (\<lambda>x. x\<lparr>flags := flags x OR UV_CLOSED\<rparr>) w) p)
          AND UV_CLOSED \<noteq> 0"
    by simp
  from fold_call_keeps_closed [OF k this] w' show ?thesis by simp
qed

lemma finish_close_keeps_closed:
  assumes k: "keeps_closed ext" and f: "uv__finish_close ext p w = Inr w'"
      and x: "flags (handle_at w x) AND UV_CLOSED \<noteq> 0"
  shows "flags (handle_at w' x) AND UV_CLOSED \<noteq> 0"
proof -
  from finish_close_calls_only [OF f] obtain cs where
    w': "w' = fold (call ext) cs (upd_handle p (\<lambda>x. x\<lparr>flags := flags x OR UV_CLOSED\<rparr>) w)"
    by blast
  from x have "flags (handle_at (upd_handle p (\<lambda>x. x\<lparr>flags := flags x OR UV_CLOSED\<rparr>) w) x)
          AND UV_CLOSED \<noteq> 0"
    by (cases "x = p") simp_all
  from fold_call_keeps_closed [OF k this] w' show ?thesis by simp
qed

lemma body_keeps_closed:
  assumes k: "keeps_closed ext" and b: "run_pending_body ext p w = Inr w'"
      and x: "flags (handle_at w x) AND UV_CLOSED \<noteq> 0"
  shows "flags (handle_at w' x) AND UV_CLOSED \<noteq> 0"
proof -
  let ?w1 = "upd_handle p (\<lambda>x. x\<lparr>flags := flags x AND NOT UV__PENDING\<rparr>)
               (upd_handle p (\<lambda>x. x\<lparr>next_pending := None\<rparr>) w)"
  from x have x1: "flags (handle_at ?w1 x) AND UV_CLOSED \<noteq> 0"
    by (cases "x = p") simp_all
  show ?thesis
  proof (cases "flags (handle_at ?w1 p) AND UV_CLOSING \<noteq> 0")
    case True
    with b have "uv__finish_close ext p ?w1 = Inr w'"
      by (simp add: run_pending_body_def Let_def)
    from finish_close_keeps_closed [OF k this x1] show ?thesis .
  next
    case False
    with b have "w' = fold (call ext) [Uv__stream_pending p] ?w1"
      by (cases "type (handle_at w p)") (simp_all add: run_pending_body_def Let_def)
    with fold_call_keeps_closed [OF k x1, of "[Uv__stream_pending p]"] show ?thesis by simp
  qed
qed

lemma uv_close_keeps_closed:
  assumes k: "keeps_closed ext" and c: "uv_close ext h cb w = Inr w'"
      and x: "flags (handle_at w x) AND UV_CLOSED \<noteq> 0"
  shows "flags (handle_at w' x) AND UV_CLOSED \<noteq> 0"
proof (cases "type (handle_at w h) = UV_UNKNOWN_HANDLE")
  case True
  with c show ?thesis by (simp add: uv_close_def)
next
  case False
  let ?w0 = "upd_handle h (\<lambda>x. x\<lparr>close_cb := cb\<rparr>) w"
  from False c obtain r where
    w': "w' = uv__make_pending h
               (upd_handle h (\<lambda>x. x\<lparr>flags := flags x OR UV_CLOSING\<rparr>) (call ext r ?w0))"
    by (cases "type (handle_at w h)") (auto simp add: uv_close_def)
  from x have "flags (handle_at ?w0 x) AND UV_CLOSED \<noteq> 0"
    by (cases "x = h") simp_all
  from fold_call_keeps_closed [OF k this, of "[r]"]
  have "flags (handle_at (call ext r ?w0) x) AND UV_CLOSED \<noteq> 0" by simp
  then have "flags (handle_at
               (upd_handle h (\<lambda>x. x\<lparr>flags := flags x OR UV_CLOSING\<rparr>) (call ext r ?w0)) x)
             AND UV_CLOSED \<noteq> 0"
    by (cases "x = h") simp_all
  with w' show ?thesis
    by (cases "x = h") (simp_all add: uv__make_pending_def Let_def)
qed

lemma finish_close_release_guard:
  "\<not> uv__is_active w h \<and> flags (handle_at w h) AND UV_CLOSING \<noteq> 0 \<and>
   flags (handle_at w h) AND UV_CLOSED = 0 \<and>
   (type (handle_at w h) = UV_UNKNOWN_HANDLE \<or>
    is_stream (type (handle_at w h)) \<and>
      (read_watcher_active (handle_at w h) \<or> write_watcher_active (handle_at w h) \<or>
       fd (handle_at w h) \<noteq> - 1)) \<Longrightarrow>
   uv__finish_close ext h w = Inl Assertion_failed"
proof -
  assume a: "\<not> uv__is_active w h \<and> flags (handle_at w h) AND UV_CLOSING \<noteq> 0 \<and>
    flags (handle_at w h) AND UV_CLOSED = 0 \<and>
    (type (handle_at w h) = UV_UNKNOWN_HANDLE \<or>
     is_stream (type (handle_at w h)) \<and>
       (read_watcher_active (handle_at w h) \<or> write_watcher_active (handle_at w h) \<or>
        fd (handle_at w h) \<noteq> - 1))"
  let ?w1 = "upd_handle h (\<lambda>x. x\<lparr>flags := flags x OR UV_CLOSED\<rparr>) w"
  have "finish_close_release ext h ?w1 = Inl Assertion_failed"
    using a by (intro release_fails [where t = "type (handle_at w h)"]) auto
  with a show "uv__finish_close ext h w = Inl Assertion_failed"
    by (simp add: uv__finish_close_def)
qed

subsection \<open>The pending queue\<close>

lemma is_chain_cong:
  "\<forall>x \<in> set hs. next_pending (H' x) = next_pending (H x) \<Longrightarrow>
   is_chain H' p hs = is_chain H p hs"
  by (induction hs arbitrary: p) simp_all

lemma is_chain_unique: "is_chain H p xs \<Longrightarrow> is_chain H p ys \<Longrightarrow> xs = ys"
proof (induction xs arbitrary: p ys)
  case Nil
  then show ?case by (cases ys) simp_all
next
  case (Cons x xs)
  then show ?case by (cases ys) auto
qed

lemma is_chain_suffix: "is_chain H p (xs @ y # ys) \<Longrightarrow> is_chain H (Some y) (y # ys)"
  by (induction xs arbitrary: p) auto

lemma is_chain_distinct: "is_chain H p hs \<Longrightarrow> distinct hs"
proof (induction hs arbitrary: p)
  case Nil
  then show ?case by simp
next
  case (Cons h hs)
  from Cons.prems have tl: "is_chain H (next_pending (H h)) hs" by simp
  have "h \<notin> set hs"
  proof
    assume "h \<in> set hs"
    then obtain a b where hs: "hs = a @ h # b" by (auto dest: split_list)
    with tl have "is_chain H (Some h) (h # b)" by (auto dest: is_chain_suffix)
    moreover from Cons.prems have "is_chain H (Some h) (h # hs)" by simp
    ultimately have "h # b = h # hs" by (rule is_chain_unique)
    with hs show False by simp
  qed
  with Cons.IH [OF tl] show ?case by simp
qed

lemma uv_close_known:
  "close_routine (type (handle_at w h)) h = Some c \<Longrightarrow>
   uv_close ext h cb w =
     Inr (uv__make_pending h
            (upd_handle h (\<lambda>x. x\<lparr>flags := flags x OR UV_CLOSING\<rparr>)
               (call ext c (upd_handle h (\<lambda>x. x\<lparr>close_cb := cb\<rparr>) w))))"
  by (cases "type (handle_at w h)") (simp_all add: uv_close_def)

lemma uv_close_unknown:
  "close_routine (type (handle_at w h)) h = None \<Longrightarrow>
   uv_close ext h cb w = Inl Assertion_failed"
  by (cases "type (handle_at w h)") (simp_all add: uv_close_def)

lemma make_pending_snd [simp]: "snd (uv__make_pending h w) = snd w"
  by (simp add: uv__make_pending_def Let_def)

lemma make_pending_flags:
  "flags (handle_at (uv__make_pending h w) h) AND UV__PENDING \<noteq> 0 \<and>
   (flags (handle_at (uv__make_pending h w) h) AND UV_CLOSING = 0) =
     (flags (handle_at w h) AND UV_CLOSING = 0)"
  by (simp add: uv__make_pending_def Let_def)

lemma make_pending_fresh:
  "flags (handle_at w h) AND UV__PENDING = 0 \<Longrightarrow>
   pending_handles (loop_of (uv__make_pending h w)) = Some h \<and>
   next_pending (handle_at (uv__make_pending h w) h) = pending_handles (loop_of w)"
  by (simp add: uv__make_pending_def Let_def)

lemma make_pending_chain:
  assumes chain: "is_chain (heap (fst w)) (pending_handles (loop_of w)) hs"
      and inv: "(h \<in> set hs) = (flags (handle_at w h) AND UV__PENDING \<noteq> 0)"
  shows "\<exists>hs'. is_chain (heap (fst (uv__make_pending h w)))
                 (pending_handles (loop_of (uv__make_pending h w))) hs' \<and>
               h \<in> set hs' \<and> set hs' = insert h (set hs)"
proof (cases "flags (handle_at w h) AND UV__PENDING = 0")
  case False
  with inv have "h \<in> set hs" by simp
  moreover from False have "uv__make_pending h w = w" by (simp add: uv__make_pending_def)
  ultimately show ?thesis using chain by (intro exI [of _ hs]) auto
next
  case True
  with inv have notin: "h \<notin> set hs" by simp
  let ?w' = "uv__make_pending h w"
  have links: "\<forall>x \<in> set hs. next_pending (heap (fst ?w') x) = next_pending (heap (fst w) x)"
    using notin True
    by (auto simp add: uv__make_pending_def Let_def upd_handle_def upd_loop_def)
  have hd: "pending_handles (loop_of ?w') = Some h"
    and nx: "next_pending (heap (fst ?w') h) = pending_handles (loop_of w)"
    using make_pending_fresh [OF True] by (simp_all add: handle_at_def)
  have "is_chain (heap (fst ?w')) (pending_handles (loop_of w)) hs"
    using chain is_chain_cong [OF links] by simp
  with hd nx have "is_chain (heap (fst ?w')) (pending_handles (loop_of ?w')) (h # hs)"
    by simp
  then show ?thesis by (intro exI [of _ "h # hs"]) simp
qed

lemma make_pending_other [simp]:
  "x \<noteq> h \<Longrightarrow> handle_at (uv__make_pending h w) x = handle_at w x"
  by (simp add: uv__make_pending_def Let_def)

lemma make_pending_keeps:
  "flags (handle_at w x) AND UV__PENDING \<noteq> 0 \<Longrightarrow>
   flags (handle_at (uv__make_pending h w) x) AND UV__PENDING \<noteq> 0 \<and>
   next_pending (handle_at (uv__make_pending h w) x) = next_pending (handle_at w x)"
  by (cases "x = h") (simp_all add: uv__make_pending_def Let_def)

lemma body_cases:
  "run_pending_body ext p w =
     (if flags (handle_at w p) AND UV_CLOSING \<noteq> 0 then
        uv__finish_close ext p
          (upd_handle p (\<lambda>x. x\<lparr>next_pending := None, flags := flags x AND NOT UV__PENDING\<rparr>) w)
      else if is_stream (type (handle_at w p)) then
        Inr (call ext (Uv__stream_pending p)
          (upd_handle p (\<lambda>x. x\<lparr>next_pending := None, flags := flags x AND NOT UV__PENDING\<rparr>) w))
      else Inl Aborted)"
  by (cases "type (handle_at w p)") (simp_all add: run_pending_body_def is_stream_def)

subsection \<open>From uv_close to the finalizer\<close>

lemma make_pending_fields [simp]:
  "type (handle_at (uv__make_pending h w) x) = type (handle_at w x)"
  "read_watcher_active (handle_at (uv__make_pending h w) x) = read_watcher_active (handle_at w x)"
  "write_watcher_active (handle_at (uv__make_pending h w) x) =
     write_watcher_active (handle_at w x)"
  "fd (handle_at (uv__make_pending h w) x) = fd (handle_at w x)"
  by (cases "x = h"; simp add: uv__make_pending_def Let_def)+

lemma call_closes:
  assumes "closes_streams ext"
  shows "type (handle_at (call ext c w) h) = type (handle_at w h)"
    and "c = Uv__pipe_close h \<or> c = Uv__stream_close h \<Longrightarrow>
         \<not> read_watcher_active (handle_at (call ext c w) h) \<and>
         \<not> write_watcher_active (handle_at (call ext c w) h) \<and>
         fd (handle_at (call ext c w) h) = - 1"
proof -
  from assms
  have a: "type (heap (ext c (fst w)) h) = type (heap (fst w) h) \<and>
           (c = Uv__pipe_close h \<or> c = Uv__stream_close h \<longrightarrow>
              \<not> read_watcher_active (heap (ext c (fst w)) h) \<and>
              \<not> write_watcher_active (heap (ext c (fst w)) h) \<and>
              fd (heap (ext c (fst w)) h) = - 1)"
    unfolding closes_streams_def by blast
  from a show "type (handle_at (call ext c w) h) = type (handle_at w h)"
    by (simp add: handle_at_def call_def)
  assume "c = Uv__pipe_close h \<or> c = Uv__stream_close h"
  with a show "\<not> read_watcher_active (handle_at (call ext c w) h) \<and>
               \<not> write_watcher_active (handle_at (call ext c w) h) \<and>
               fd (handle_at (call ext c w) h) = - 1"
    by (simp add: handle_at_def call_def)
qed

lemma close_routine_stream:
  "close_routine t h = Some c \<Longrightarrow> is_stream t \<Longrightarrow>
   c = Uv__pipe_close h \<or> c = Uv__stream_close h"
  by (cases t) (simp_all add: is_stream_def)

lemma uv_close_releases:
  assumes cs: "closes_streams ext" and c: "uv_close ext h cb w = Inr w'"
  shows "flags (handle_at w' h) AND UV_CLOSING \<noteq> 0 \<and>
         type (handle_at w' h) = type (handle_at w h) \<and>
         type (handle_at w' h) \<noteq> UV_UNKNOWN_HANDLE \<and>
         (is_stream (type (handle_at w' h)) \<longrightarrow>
            \<not> read_watcher_active (handle_at w' h) \<and>
            \<not> write_watcher_active (handle_at w' h) \<and>
            fd (handle_at w' h) = - 1)"
proof (cases "close_routine (type (handle_at w h)) h")
  case None
  with c show ?thesis by (simp add: uv_close_unknown)
next
  case (Some r)
  let ?w0 = "upd_handle h (\<lambda>x. x\<lparr>close_cb := cb\<rparr>) w"
  let ?w1 = "upd_handle h (\<lambda>x. x\<lparr>flags := flags x OR UV_CLOSING\<rparr>) (call ext r ?w0)"
  from c Some have w': "w' = uv__make_pending h ?w1" by (simp add: uv_close_known)
  from Some have known: "type (handle_at w h) \<noteq> UV_UNKNOWN_HANDLE" by auto
  have ty: "type (handle_at w' h) = type (handle_at w h)"
    using w' call_closes(1) [OF cs, of r ?w0 h] by simp
  have cl: "flags (handle_at w' h) AND UV_CLOSING \<noteq> 0"
    using w' make_pending_flags [of h ?w1] by simp
  have rel: "\<not> read_watcher_active (handle_at w' h) \<and>
             \<not> write_watcher_active (handle_at w' h) \<and> fd (handle_at w' h) = - 1"
    if st: "is_stream (type (handle_at w' h))"
  proof -
    from st ty have "is_stream (type (handle_at w h))" by simp
    from close_routine_stream [OF Some this] call_closes(2) [OF cs, of r h ?w0]
    have "\<not> read_watcher_active (handle_at (call ext r ?w0) h) \<and>
          \<not> write_watcher_active (handle_at (call ext r ?w0) h) \<and>
          fd (handle_at (call ext r ?w0) h) = - 1"
      by blast
    with w' show ?thesis by simp
  qed
  from cl ty known rel show ?thesis by simp
qed

lemma releasing_env_cases:
  "releasing_env c s = s \<or> (\<exists>h. releasing_env c s = release_stream h s)"
  by (cases c; simp add: releasing_env_def; blast)

lemma releasing_keeps_closed: "keeps_closed releasing_env"
  unfolding keeps_closed_def
proof (intro allI impI)
  fix c and s :: state and h
  assume "flags (heap s h) AND UV_CLOSED \<noteq> 0"
  with releasing_env_cases [of c s]
  show "flags (heap (releasing_env c s) h) AND UV_CLOSED \<noteq> 0"
    by (auto simp add: release_stream_def split: if_splits)
qed

lemma releasing_closes: "closes_streams releasing_env"
  unfolding closes_streams_def
proof (intro allI)
  fix c and s :: state and h
  from releasing_env_cases [of c s]
  have ty: "type (heap (releasing_env c s) h) = type (heap s h)"
    by (auto simp add: release_stream_def split: if_splits)
  have rel: "\<not> read_watcher_active (heap (releasing_env c s) h) \<and>
             \<not> write_watcher_active (heap (releasing_env c s) h) \<and>
             fd (heap (releasing_env c s) h) = - 1"
    if "c = Uv__pipe_close h \<or> c = Uv__stream_close h"
    using that by (auto simp add: releasing_env_def release_stream_def)
  from ty rel
  show "type (heap (releasing_env c s) h) = type (heap s h) \<and>
        (c = Uv__pipe_close h \<or> c = Uv__stream_close h \<longrightarrow>
           \<not> read_watcher_active (heap (releasing_env c s) h) \<and>
           \<not> write_watcher_active (heap (releasing_env c s) h) \<and>
           fd (heap (releasing_env c s) h) = - 1)"
    by blast
qed

text \<open>
  C4. \<open>uv__finish_close\<close> fails its assertions, before it changes or calls
  anything, when the handle is active, or CLOSING is not set, or CLOSED is set
  already. A handle reaches the finalizer through \<open>uv_close\<close>, which sets CLOSING
  only after the close routine of the handle's type has run: it has a known type
  and, if it is a stream, inactive watchers and the descriptor -1, as that routine
  leaves them. For such a handle that passes the three assertions the finalizer sets
  CLOSED, calls the release routines of the handle's type, then the close callback
  stored in the handle, once, if there is one, then \<open>uv__handle_unref\<close>, and
  nothing else; and a second run of the finalizer on the handle fails the assertion
  on CLOSED. The routines outside core.c do not clear CLOSED: the flag is set when
  the finalizer returns and it survives every \<open>uv_close\<close> and every step of the
  pending drain, so the finalizer runs to its end once per handle, CLOSED is set
  once and the callback is called once, after the release.
\<close>

theorem finish_close_once:
  "(uv__is_active w h \<or> flags (handle_at w h) AND UV_CLOSING = 0 \<or>
    flags (handle_at w h) AND UV_CLOSED \<noteq> 0 \<longrightarrow>
      uv__finish_close ext h w = Inl Assertion_failed) \<and>
   (\<not> uv__is_active w h \<and> flags (handle_at w h) AND UV_CLOSING \<noteq> 0 \<and>
    flags (handle_at w h) AND UV_CLOSED = 0 \<and>
    type (handle_at w h) \<noteq> UV_UNKNOWN_HANDLE \<and>
    (is_stream (type (handle_at w h)) \<longrightarrow>
       \<not> read_watcher_active (handle_at w h) \<and> \<not> write_watcher_active (handle_at w h) \<and>
       fd (handle_at w h) = - 1) \<longrightarrow>
      (\<exists>w1 w2 w3 w4.
         w1 = upd_handle h (\<lambda>x. x\<lparr>flags := flags x OR UV_CLOSED\<rparr>) w \<and>
         flags (handle_at w1 h) AND UV_CLOSED \<noteq> 0 \<and>
         w2 = fold (call ext) (release_calls (type (handle_at w h)) h) w1 \<and>
         w3 = (case close_cb (handle_at w2 h) of
                 Some cb \<Rightarrow> call ext (Close_cb cb h) w2 | None \<Rightarrow> w2) \<and>
         w4 = call ext (Uv__handle_unref h) w3 \<and>
         uv__finish_close ext h w = Inr w4 \<and>
         snd w4 = snd w @ release_calls (type (handle_at w h)) h @
                    (case close_cb (handle_at w2 h) of
                       Some cb \<Rightarrow> [Close_cb cb h] | None \<Rightarrow> []) @
                    [Uv__handle_unref h] \<and>
         (flags (handle_at w4 h) AND UV_CLOSED \<noteq> 0 \<longrightarrow>
            uv__finish_close ext h w4 = Inl Assertion_failed))) \<and>
   (keeps_closed ext \<longrightarrow>
      (\<forall>w'. uv__finish_close ext h w = Inr w' \<longrightarrow>
         flags (handle_at w' h) AND UV_CLOSED \<noteq> 0 \<and>
         uv__finish_close ext h w' = Inl Assertion_failed) \<and>
      (flags (handle_at w h) AND UV_CLOSED \<noteq> 0 \<longrightarrow>
         (\<forall>x cb w'. uv_close ext x cb w = Inr w' \<longrightarrow>
            flags (handle_at w' h) AND UV_CLOSED \<noteq> 0) \<and>
         (\<forall>x w'. run_pending_body ext x w = Inr w' \<longrightarrow>
            flags (handle_at w' h) AND UV_CLOSED \<noteq> 0))) \<and>
   (closes_streams ext \<longrightarrow>
      (\<forall>cb w'. uv_close ext h cb w = Inr w' \<longrightarrow>
         flags (handle_at w' h) AND UV_CLOSING \<noteq> 0 \<and>
         type (handle_at w' h) \<noteq> UV_UNKNOWN_HANDLE \<and>
         (is_stream (type (handle_at w' h)) \<longrightarrow>
            \<not> read_watcher_active (handle_at w' h) \<and>
            \<not> write_watcher_active (handle_at w' h) \<and>
            fd (handle_at w' h) = - 1)))"
proof (intro conjI impI allI)
  assume "uv__is_active w h \<or> flags (handle_at w h) AND UV_CLOSING = 0 \<or>
          flags (handle_at w h) AND UV_CLOSED \<noteq> 0"
  then show "uv__finish_close ext h w = Inl Assertion_failed" by (rule finish_close_asserts)
next
  assume a: "\<not> uv__is_active w h \<and> flags (handle_at w h) AND UV_CLOSING \<noteq> 0 \<and>
    flags (handle_at w h) AND UV_CLOSED = 0 \<and>
    type (handle_at w h) \<noteq> UV_UNKNOWN_HANDLE \<and>
    (is_stream (type (handle_at w h)) \<longrightarrow>
       \<not> read_watcher_active (handle_at w h) \<and> \<not> write_watcher_active (handle_at w h) \<and>
       fd (handle_at w h) = - 1)"
  let ?t = "type (handle_at w h)"
  let ?w1 = "upd_handle h (\<lambda>x. x\<lparr>flags := flags x OR UV_CLOSED\<rparr>) w"
  let ?w2 = "fold (call ext) (release_calls ?t h) ?w1"
  let ?w3 = "case close_cb (handle_at ?w2 h) of
               Some cb \<Rightarrow> call ext (Close_cb cb h) ?w2 | None \<Rightarrow> ?w2"
  let ?w4 = "call ext (Uv__handle_unref h) ?w3"
  have rel: "finish_close_release ext h ?w1 = Inr ?w2"
    using a by (intro release_ok) auto
  have fc: "uv__finish_close ext h w = Inr ?w4"
    using a rel by (simp add: uv__finish_close_def)
  have tr: "snd ?w4 = snd w @ release_calls ?t h @
                    (case close_cb (handle_at ?w2 h) of
                       Some cb \<Rightarrow> [Close_cb cb h] | None \<Rightarrow> []) @
                    [Uv__handle_unref h]"
    by (simp split: option.splits)
  have again: "flags (handle_at ?w4 h) AND UV_CLOSED \<noteq> 0 \<longrightarrow>
            uv__finish_close ext h ?w4 = Inl Assertion_failed"
    by (simp add: finish_close_asserts)
  have set: "flags (handle_at ?w1 h) AND UV_CLOSED \<noteq> 0" by simp
  show "\<exists>w1 w2 w3 w4.
         w1 = upd_handle h (\<lambda>x. x\<lparr>flags := flags x OR UV_CLOSED\<rparr>) w \<and>
         flags (handle_at w1 h) AND UV_CLOSED \<noteq> 0 \<and>
         w2 = fold (call ext) (release_calls (type (handle_at w h)) h) w1 \<and>
         w3 = (case close_cb (handle_at w2 h) of
                 Some cb \<Rightarrow> call ext (Close_cb cb h) w2 | None \<Rightarrow> w2) \<and>
         w4 = call ext (Uv__handle_unref h) w3 \<and>
         uv__finish_close ext h w = Inr w4 \<and>
         snd w4 = snd w @ release_calls (type (handle_at w h)) h @
                    (case close_cb (handle_at w2 h) of
                       Some cb \<Rightarrow> [Close_cb cb h] | None \<Rightarrow> []) @
                    [Uv__handle_unref h] \<and>
         (flags (handle_at w4 h) AND UV_CLOSED \<noteq> 0 \<longrightarrow>
            uv__finish_close ext h w4 = Inl Assertion_failed)"
    using set fc tr again by blast
next
  fix w' assume k: "keeps_closed ext" and f: "uv__finish_close ext h w = Inr w'"
  from finish_close_sets_closed [OF k f]
  show c: "flags (handle_at w' h) AND UV_CLOSED \<noteq> 0" .
  then show "uv__finish_close ext h w' = Inl Assertion_failed"
    by (simp add: finish_close_asserts)
next
  fix x cb w'
  assume k: "keeps_closed ext" and s: "flags (handle_at w h) AND UV_CLOSED \<noteq> 0"
    and c: "uv_close ext x cb w = Inr w'"
  from uv_close_keeps_closed [OF k c s]
  show "flags (handle_at w' h) AND UV_CLOSED \<noteq> 0" .
next
  fix x w'
  assume k: "keeps_closed ext" and s: "flags (handle_at w h) AND UV_CLOSED \<noteq> 0"
    and b: "run_pending_body ext x w = Inr w'"
  from body_keeps_closed [OF k b s]
  show "flags (handle_at w' h) AND UV_CLOSED \<noteq> 0" .
next
  fix cb w' assume cs: "closes_streams ext" and c: "uv_close ext h cb w = Inr w'"
  from uv_close_releases [OF cs c]
  show "flags (handle_at w' h) AND UV_CLOSING \<noteq> 0"
    and "type (handle_at w' h) \<noteq> UV_UNKNOWN_HANDLE"
    by blast+
  assume "is_stream (type (handle_at w' h))"
  with uv_close_releases [OF cs c]
  show "\<not> read_watcher_active (handle_at w' h)"
    and "\<not> write_watcher_active (handle_at w' h)"
    and "fd (handle_at w' h) = - 1"
    by blast+
qed

theorem finish_close_once_witness:
  "keeps_closed releasing_env \<and> closes_streams releasing_env \<and>
   (\<exists>w. uv_close releasing_env 1 (Some 9) (tcp_open_example, []) = Inr w \<and>
        snd w = [Uv__stream_close 1] \<and>
        \<not> uv__is_active w 1 \<and>
        flags (handle_at w 1) AND UV_CLOSING \<noteq> 0 \<and>
        flags (handle_at w 1) AND UV_CLOSED = 0 \<and>
        type (handle_at w 1) = UV_TCP \<and>
        \<not> read_watcher_active (handle_at w 1) \<and>
        \<not> write_watcher_active (handle_at w 1) \<and>
        fd (handle_at w 1) = - 1 \<and>
        (\<exists>w4. uv__finish_close releasing_env 1 w = Inr w4 \<and>
              snd w4 = [Uv__stream_close 1, Uv__stream_destroy 1, Close_cb 9 1,
                        Uv__handle_unref 1] \<and>
              flags (handle_at w4 1) AND UV_CLOSED \<noteq> 0 \<and>
              uv__finish_close releasing_env 1 w4 = Inl Assertion_failed))"
proof -
  let ?w0 = "(tcp_open_example, [])"
  obtain w where c: "uv_close releasing_env 1 (Some 9) ?w0 = Inr w"
    and tr: "snd w = [Uv__stream_close 1]"
    and na: "\<not> uv__is_active w 1"
    and nc: "flags (handle_at w 1) AND UV_CLOSED = 0"
    and ty: "type (handle_at w 1) = UV_TCP"
    and cbk: "close_cb (handle_at w 1) = Some 9"
    by (simp add: eval_defs releasing_env_def release_stream_def tcp_open_example_def)
  from finish_close_once [of ?w0 1 releasing_env] releasing_closes c
  have rel: "flags (handle_at w 1) AND UV_CLOSING \<noteq> 0 \<and>
             type (handle_at w 1) \<noteq> UV_UNKNOWN_HANDLE \<and>
             (is_stream (type (handle_at w 1)) \<longrightarrow>
                \<not> read_watcher_active (handle_at w 1) \<and>
                \<not> write_watcher_active (handle_at w 1) \<and> fd (handle_at w 1) = - 1)"
    by blast
  with ty have st: "\<not> read_watcher_active (handle_at w 1) \<and>
                    \<not> write_watcher_active (handle_at w 1) \<and> fd (handle_at w 1) = - 1"
    by (simp add: is_stream_def)
  from finish_close_once [of w 1 releasing_env] na nc rel
  obtain w4 where f: "uv__finish_close releasing_env 1 w = Inr w4"
    and t4: "snd w4 = snd w @ release_calls (type (handle_at w 1)) 1 @
               (case close_cb (handle_at
                      (fold (call releasing_env) (release_calls (type (handle_at w 1)) 1)
                         (upd_handle 1 (\<lambda>x. x\<lparr>flags := flags x OR UV_CLOSED\<rparr>) w)) 1) of
                  Some cb \<Rightarrow> [Close_cb cb 1] | None \<Rightarrow> []) @
               [Uv__handle_unref 1]"
    by blast
  from finish_close_once [of w 1 releasing_env] releasing_keeps_closed f
  have again: "flags (handle_at w4 1) AND UV_CLOSED \<noteq> 0 \<and>
               uv__finish_close releasing_env 1 w4 = Inl Assertion_failed"
    by blast
  have "close_cb (handle_at
          (fold (call releasing_env) (release_calls (type (handle_at w 1)) 1)
             (upd_handle 1 (\<lambda>x. x\<lparr>flags := flags x OR UV_CLOSED\<rparr>) w)) 1) = Some 9"
    using ty cbk
    by (simp add: release_calls_def is_stream_def releasing_env_def call_def handle_at_def
          upd_handle_def)
  with t4 tr ty have "snd w4 = [Uv__stream_close 1, Uv__stream_destroy 1, Close_cb 9 1,
                        Uv__handle_unref 1]"
    by (simp add: release_calls_def is_stream_def)
  with c tr na nc ty st rel f again releasing_keeps_closed releasing_closes
  show ?thesis by blast
qed

subsection \<open>uv_close enqueues the handle\<close>

text \<open>
  C7. For a handle with an unknown type tag \<open>uv_close\<close> fails its assertion. For
  every handle of a known type it stores the callback, calls the close routine that
  belongs to the type tag, and no other routine, then sets CLOSING and enqueues the
  handle: afterwards the handle has CLOSING and PENDING set; if it was not flagged
  PENDING it is the head of the loop's pending queue, linked to the old head, and
  the next \<open>uv__run_pending\<close> begins by running the close finalizer on it; and if
  the queue was a chain holding the handle exactly when it was flagged, the queue is
  a chain that holds the handle and the handles it held before.
\<close>

theorem close_enqueues:
  "(close_routine (type (handle_at w h)) h = None \<longrightarrow>
      uv_close ext h cb w = Inl Assertion_failed) \<and>
   (\<forall>c. close_routine (type (handle_at w h)) h = Some c \<longrightarrow>
      (\<exists>w0 w1 w2.
         w0 = upd_handle h (\<lambda>x. x\<lparr>close_cb := cb\<rparr>) w \<and>
         close_cb (handle_at w0 h) = cb \<and>
         w1 = upd_handle h (\<lambda>x. x\<lparr>flags := flags x OR UV_CLOSING\<rparr>) (call ext c w0) \<and>
         w2 = uv__make_pending h w1 \<and>
         uv_close ext h cb w = Inr w2 \<and>
         snd w2 = snd w @ [c] \<and>
         flags (handle_at w2 h) AND UV_CLOSING \<noteq> 0 \<and>
         flags (handle_at w2 h) AND UV__PENDING \<noteq> 0 \<and>
         (flags (handle_at w1 h) AND UV__PENDING = 0 \<longrightarrow>
            pending_handles (loop_of w2) = Some h \<and>
            next_pending (handle_at w2 h) = pending_handles (loop_of w1) \<and>
            (\<forall>ext'. uv__run_pending ext' w2 =
               (case uv__finish_close ext' h
                       (upd_handle h
                          (\<lambda>x. x\<lparr>next_pending := None, flags := flags x AND NOT UV__PENDING\<rparr>)
                          (upd_loop (\<lambda>l. l\<lparr>pending_handles := None\<rparr>) w2)) of
                  Inl e \<Rightarrow> Some (Inl e)
                | Inr w3 \<Rightarrow> run_pending_loop ext' (pending_handles (loop_of w1)) w3))) \<and>
         (\<forall>hs. is_chain (heap (fst w1)) (pending_handles (loop_of w1)) hs \<and>
               (h \<in> set hs) = (flags (handle_at w1 h) AND UV__PENDING \<noteq> 0) \<longrightarrow>
            (\<exists>hs'. is_chain (heap (fst w2)) (pending_handles (loop_of w2)) hs' \<and>
                   h \<in> set hs' \<and> set hs' = insert h (set hs)))))"
proof (intro conjI allI impI)
  assume "close_routine (type (handle_at w h)) h = None"
  then show "uv_close ext h cb w = Inl Assertion_failed" by (rule uv_close_unknown)
next
  fix c assume c: "close_routine (type (handle_at w h)) h = Some c"
  let ?w0 = "upd_handle h (\<lambda>x. x\<lparr>close_cb := cb\<rparr>) w"
  let ?w1 = "upd_handle h (\<lambda>x. x\<lparr>flags := flags x OR UV_CLOSING\<rparr>) (call ext c ?w0)"
  let ?w2 = "uv__make_pending h ?w1"
  have 1: "close_cb (handle_at ?w0 h) = cb" by simp
  have 2: "uv_close ext h cb w = Inr ?w2" using c by (rule uv_close_known)
  have 3: "snd ?w2 = snd w @ [c]" by simp
  have 4: "flags (handle_at ?w2 h) AND UV_CLOSING \<noteq> 0"
    using make_pending_flags [of h ?w1] by simp
  have 5: "flags (handle_at ?w2 h) AND UV__PENDING \<noteq> 0"
    using make_pending_flags [of h ?w1] by simp
  have 6: "flags (handle_at ?w1 h) AND UV__PENDING = 0 \<longrightarrow>
            pending_handles (loop_of ?w2) = Some h \<and>
            next_pending (handle_at ?w2 h) = pending_handles (loop_of ?w1) \<and>
            (\<forall>ext'. uv__run_pending ext' ?w2 =
               (case uv__finish_close ext' h
                       (upd_handle h
                          (\<lambda>x. x\<lparr>next_pending := None, flags := flags x AND NOT UV__PENDING\<rparr>)
                          (upd_loop (\<lambda>l. l\<lparr>pending_handles := None\<rparr>) ?w2)) of
                  Inl e \<Rightarrow> Some (Inl e)
                | Inr w3 \<Rightarrow> run_pending_loop ext' (pending_handles (loop_of ?w1)) w3))"
  proof (intro impI conjI allI)
    assume f: "flags (handle_at ?w1 h) AND UV__PENDING = 0"
    from make_pending_fresh [OF f]
    show hd: "pending_handles (loop_of ?w2) = Some h"
      and nx: "next_pending (handle_at ?w2 h) = pending_handles (loop_of ?w1)"
      by simp_all
    fix ext'
    let ?d = "upd_loop (\<lambda>l. l\<lparr>pending_handles := None\<rparr>) ?w2"
    have cl: "flags (handle_at ?d h) AND UV_CLOSING \<noteq> 0"
      using make_pending_flags [of h ?w1] by simp
    have "uv__run_pending ext' ?w2 = run_pending_loop ext' (Some h) ?d"
      using hd by (simp add: uv__run_pending_def)
    also have "\<dots> = (case run_pending_body ext' h ?d of
                          Inl e \<Rightarrow> Some (Inl e)
                        | Inr w3 \<Rightarrow> run_pending_loop ext' (pending_handles (loop_of ?w1)) w3)"
    proof -
      from nx have q: "next_pending (handle_at ?d h) = pending_handles (loop_of ?w1)"
        by simp
      show ?thesis
        by (subst run_pending_loop.simps) (simp only: option.case Let_def q)
    qed
    also have "run_pending_body ext' h ?d =
                 uv__finish_close ext' h
                   (upd_handle h
                      (\<lambda>x. x\<lparr>next_pending := None, flags := flags x AND NOT UV__PENDING\<rparr>) ?d)"
      using cl by (simp add: body_cases)
    finally show "uv__run_pending ext' ?w2 =
               (case uv__finish_close ext' h
                       (upd_handle h
                          (\<lambda>x. x\<lparr>next_pending := None, flags := flags x AND NOT UV__PENDING\<rparr>)
                          (upd_loop (\<lambda>l. l\<lparr>pending_handles := None\<rparr>) ?w2)) of
                  Inl e \<Rightarrow> Some (Inl e)
                | Inr w3 \<Rightarrow> run_pending_loop ext' (pending_handles (loop_of ?w1)) w3)" .
  qed
  have 7: "\<forall>hs. is_chain (heap (fst ?w1)) (pending_handles (loop_of ?w1)) hs \<and>
               (h \<in> set hs) = (flags (handle_at ?w1 h) AND UV__PENDING \<noteq> 0) \<longrightarrow>
            (\<exists>hs'. is_chain (heap (fst ?w2)) (pending_handles (loop_of ?w2)) hs' \<and>
                   h \<in> set hs' \<and> set hs' = insert h (set hs))"
    using make_pending_chain [of ?w1 _ h] by blast
  show "\<exists>w0 w1 w2.
         w0 = upd_handle h (\<lambda>x. x\<lparr>close_cb := cb\<rparr>) w \<and>
         close_cb (handle_at w0 h) = cb \<and>
         w1 = upd_handle h (\<lambda>x. x\<lparr>flags := flags x OR UV_CLOSING\<rparr>) (call ext c w0) \<and>
         w2 = uv__make_pending h w1 \<and>
         uv_close ext h cb w = Inr w2 \<and>
         snd w2 = snd w @ [c] \<and>
         flags (handle_at w2 h) AND UV_CLOSING \<noteq> 0 \<and>
         flags (handle_at w2 h) AND UV__PENDING \<noteq> 0 \<and>
         (flags (handle_at w1 h) AND UV__PENDING = 0 \<longrightarrow>
            pending_handles (loop_of w2) = Some h \<and>
            next_pending (handle_at w2 h) = pending_handles (loop_of w1) \<and>
            (\<forall>ext'. uv__run_pending ext' w2 =
               (case uv__finish_close ext' h
                       (upd_handle h
                          (\<lambda>x. x\<lparr>next_pending := None, flags := flags x AND NOT UV__PENDING\<rparr>)
                          (upd_loop (\<lambda>l. l\<lparr>pending_handles := None\<rparr>) w2)) of
                  Inl e \<Rightarrow> Some (Inl e)
                | Inr w3 \<Rightarrow> run_pending_loop ext' (pending_handles (loop_of w1)) w3))) \<and>
         (\<forall>hs. is_chain (heap (fst w1)) (pending_handles (loop_of w1)) hs \<and>
               (h \<in> set hs) = (flags (handle_at w1 h) AND UV__PENDING \<noteq> 0) \<longrightarrow>
            (\<exists>hs'. is_chain (heap (fst w2)) (pending_handles (loop_of w2)) hs' \<and>
                   h \<in> set hs' \<and> set hs' = insert h (set hs)))"
    using 1 2 3 4 5 6 7 by blast
qed

theorem close_enqueues_witness:
  "close_routine (type (handle_at (drain_example, []) 3)) 3 = Some (Uv__timer_close 3) \<and>
   (\<exists>w2. uv_close quiet_env 3 (Some 4) (drain_example, []) = Inr w2 \<and>
         snd w2 = [Uv__timer_close 3] \<and>
         close_cb (handle_at w2 3) = Some 4 \<and>
         flags (handle_at w2 3) = UV__REF OR UV_CLOSING OR UV__PENDING \<and>
         pending_handles (loop_of w2) = Some 3 \<and>
         next_pending (handle_at w2 3) = Some 1 \<and>
         is_chain (heap (fst w2)) (pending_handles (loop_of w2)) [3, 1, 2])"
  using close_enqueues [of "(drain_example, [])" 3 quiet_env "Some 4"]
  by (simp add: eval_defs drain_example_def)

subsection \<open>Draining the pending queue\<close>

lemma call_keeps:
  "keeps_pending_links ext \<Longrightarrow> flags (handle_at w x) AND UV__PENDING \<noteq> 0 \<Longrightarrow>
   flags (handle_at (call ext c w) x) AND UV__PENDING \<noteq> 0 \<and>
   next_pending (handle_at (call ext c w) x) = next_pending (handle_at w x)"
  by (simp add: keeps_pending_links_def handle_at_def call_def)

lemma fold_call_keeps:
  "keeps_pending_links ext \<Longrightarrow> flags (handle_at w x) AND UV__PENDING \<noteq> 0 \<Longrightarrow>
   flags (handle_at (fold (call ext) cs w) x) AND UV__PENDING \<noteq> 0 \<and>
   next_pending (handle_at (fold (call ext) cs w) x) = next_pending (handle_at w x)"
proof (induction cs arbitrary: w)
  case Nil
  then show ?case by simp
next
  case (Cons c cs)
  from call_keeps [OF Cons.prems] have
    a: "flags (handle_at (call ext c w) x) AND UV__PENDING \<noteq> 0"
    and b: "next_pending (handle_at (call ext c w) x) = next_pending (handle_at w x)"
    by simp_all
  from Cons.IH [OF Cons.prems(1) a] b show ?case by simp
qed

lemma release_shape:
  "finish_close_release ext p w = Inr w' \<Longrightarrow>
   \<exists>cs. w' = fold (call ext) cs w \<and> (\<forall>c \<in> set cs. call_handle c = Some p)"
proof (cases "type (handle_at w p)")
  case UV_UDP
  assume "finish_close_release ext p w = Inr w'"
  with UV_UDP have "w' = fold (call ext) [Uv__udp_finish_close p] w"
    by (simp add: finish_close_release_def)
  then show ?thesis by (intro exI [of _ "[Uv__udp_finish_close p]"]) simp
next
  case UV_NAMED_PIPE
  assume "finish_close_release ext p w = Inr w'"
  with UV_NAMED_PIPE have "w' = fold (call ext) [Uv__stream_destroy p] w"
    by (simp add: finish_close_release_def split: if_splits)
  then show ?thesis by (intro exI [of _ "[Uv__stream_destroy p]"]) simp
next
  case UV_TCP
  assume "finish_close_release ext p w = Inr w'"
  with UV_TCP have "w' = fold (call ext) [Uv__stream_destroy p] w"
    by (simp add: finish_close_release_def split: if_splits)
  then show ?thesis by (intro exI [of _ "[Uv__stream_destroy p]"]) simp
next
  case UV_TTY
  assume "finish_close_release ext p w = Inr w'"
  with UV_TTY have "w' = fold (call ext) [Uv__stream_destroy p] w"
    by (simp add: finish_close_release_def split: if_splits)
  then show ?thesis by (intro exI [of _ "[Uv__stream_destroy p]"]) simp
qed (auto simp add: finish_close_release_def intro: exI [of _ "[]"])

lemma finish_close_shape:
  assumes "uv__finish_close ext p w = Inr w'"
  shows "\<exists>cs. w' = fold (call ext) cs (upd_handle p (\<lambda>x. x\<lparr>flags := flags x OR UV_CLOSED\<rparr>) w) \<and>
              (\<forall>c \<in> set cs. call_handle c = Some p)"
proof -
  let ?w1 = "upd_handle p (\<lambda>x. x\<lparr>flags := flags x OR UV_CLOSED\<rparr>) w"
  from assms obtain w2 where
    rel: "finish_close_release ext p ?w1 = Inr w2" and
    w': "w' = call ext (Uv__handle_unref p)
               (case close_cb (handle_at w2 p) of
                  Some cb \<Rightarrow> call ext (Close_cb cb p) w2 | None \<Rightarrow> w2)"
    by (auto simp add: uv__finish_close_def Let_def split: if_splits sum.splits)
  from release_shape [OF rel] obtain cs where
    w2: "w2 = fold (call ext) cs ?w1" and cs: "\<forall>c \<in> set cs. call_handle c = Some p"
    by blast
  show ?thesis
  proof (cases "close_cb (handle_at w2 p)")
    case None
    with w' w2 have "w' = fold (call ext) (cs @ [Uv__handle_unref p]) ?w1" by simp
    with cs show ?thesis by (intro exI [of _ "cs @ [Uv__handle_unref p]"]) simp
  next
    case (Some cb)
    with w' w2 have "w' = fold (call ext) (cs @ [Close_cb cb p, Uv__handle_unref p]) ?w1"
      by simp
    with cs show ?thesis
      by (intro exI [of _ "cs @ [Close_cb cb p, Uv__handle_unref p]"]) simp
  qed
qed

lemma body_shape:
  assumes "run_pending_body ext p w = Inr w'"
  shows "\<exists>f cs. w' = fold (call ext) cs (upd_handle p f w) \<and>
                (\<forall>c \<in> set cs. call_handle c = Some p)"
proof -
  let ?w1 = "upd_handle p (\<lambda>x. x\<lparr>flags := flags x AND NOT UV__PENDING\<rparr>)
               (upd_handle p (\<lambda>x. x\<lparr>next_pending := None\<rparr>) w)"
  show ?thesis
  proof (cases "flags (handle_at ?w1 p) AND UV_CLOSING \<noteq> 0")
    case True
    with assms have "uv__finish_close ext p ?w1 = Inr w'"
      by (simp add: run_pending_body_def Let_def)
    from finish_close_shape [OF this] obtain cs where
      "w' = fold (call ext) cs (upd_handle p (\<lambda>x. x\<lparr>flags := flags x OR UV_CLOSED\<rparr>) ?w1)"
      and "\<forall>c \<in> set cs. call_handle c = Some p" by blast
    then show ?thesis unfolding upd_handle_twice by blast
  next
    case False
    with assms have "w' = fold (call ext) [Uv__stream_pending p] ?w1"
      by (cases "type (handle_at w p)") (simp_all add: run_pending_body_def Let_def)
    then have "w' = fold (call ext) [Uv__stream_pending p]
                      (upd_handle p (\<lambda>x. (x\<lparr>next_pending := None\<rparr>)
                         \<lparr>flags := flags (x\<lparr>next_pending := None\<rparr>) AND NOT UV__PENDING\<rparr>) w)"
      by simp
    then show ?thesis by (intro exI [of _ _] exI [of _ "[Uv__stream_pending p]"]) simp
  qed
qed

lemma body_keeps:
  assumes k: "keeps_pending_links ext"
      and b: "run_pending_body ext p w = Inr w'"
      and x: "x \<noteq> p" "flags (handle_at w x) AND UV__PENDING \<noteq> 0"
  shows "flags (handle_at w' x) AND UV__PENDING \<noteq> 0 \<and>
         next_pending (handle_at w' x) = next_pending (handle_at w x)"
proof -
  from body_shape [OF b] obtain f cs where w': "w' = fold (call ext) cs (upd_handle p f w)"
    by blast
  from x have "flags (handle_at (upd_handle p f w) x) AND UV__PENDING \<noteq> 0" by simp
  from fold_call_keeps [OF k this, of cs] w' x show ?thesis by simp
qed

lemma body_trace:
  assumes "run_pending_body ext p w = Inr w'"
  shows "\<exists>tr. snd w' = snd w @ tr \<and> (\<forall>c \<in> set tr. call_handle c = Some p)"
proof -
  from body_shape [OF assms] obtain f cs where
    "w' = fold (call ext) cs (upd_handle p f w)" and "\<forall>c \<in> set cs. call_handle c = Some p"
    by blast
  then show ?thesis by (intro exI [of _ cs]) simp
qed

lemma dispatch_each_trace:
  "dispatch_each ext hs w = Inr w' \<Longrightarrow>
   \<exists>tr. snd w' = snd w @ tr \<and> (\<forall>c \<in> set tr. \<exists>x \<in> set hs. call_handle c = Some x)"
proof (induction hs arbitrary: w)
  case Nil
  then show ?case by simp
next
  case (Cons h hs)
  from Cons.prems obtain w1 where
    b: "run_pending_body ext h w = Inr w1" and r: "dispatch_each ext hs w1 = Inr w'"
    by (auto split: sum.splits)
  from body_trace [OF b] obtain t1 where
    t1: "snd w1 = snd w @ t1" "\<forall>c \<in> set t1. call_handle c = Some h" by blast
  from Cons.IH [OF r] obtain t2 where
    t2: "snd w' = snd w1 @ t2" "\<forall>c \<in> set t2. \<exists>x \<in> set hs. call_handle c = Some x" by blast
  from t1 t2 show ?case by (intro exI [of _ "t1 @ t2"]) auto
qed

lemma run_pending_loop_refines:
  assumes k: "keeps_pending_links ext"
  shows "is_chain (heap (fst w)) p hs \<Longrightarrow> distinct hs \<Longrightarrow>
         \<forall>x \<in> set hs. flags (handle_at w x) AND UV__PENDING \<noteq> 0 \<Longrightarrow>
         run_pending_loop ext p w = Some (dispatch_each ext hs w)"
proof (induction hs arbitrary: p w)
  case Nil
  then show ?case by (subst run_pending_loop.simps) simp
next
  case (Cons h hs)
  from Cons.prems(1) have p: "p = Some h"
    and ch: "is_chain (heap (fst w)) (next_pending (handle_at w h)) hs"
    by (simp_all add: handle_at_def)
  show ?case
  proof (cases "run_pending_body ext h w")
    case (Inl e)
    with p show ?thesis by (subst run_pending_loop.simps) simp
  next
    case (Inr w1)
    have keep: "\<forall>x \<in> set hs. flags (handle_at w1 x) AND UV__PENDING \<noteq> 0 \<and>
                  next_pending (handle_at w1 x) = next_pending (handle_at w x)"
    proof
      fix x assume x: "x \<in> set hs"
      with Cons.prems(2) have "x \<noteq> h" by auto
      moreover from x Cons.prems(3) have "flags (handle_at w x) AND UV__PENDING \<noteq> 0" by simp
      ultimately show "flags (handle_at w1 x) AND UV__PENDING \<noteq> 0 \<and>
                  next_pending (handle_at w1 x) = next_pending (handle_at w x)"
        using body_keeps [OF k Inr] by blast
    qed
    then have "\<forall>x \<in> set hs. next_pending (heap (fst w1) x) = next_pending (heap (fst w) x)"
      by (simp add: handle_at_def)
    from is_chain_cong [OF this] ch
    have ch1: "is_chain (heap (fst w1)) (next_pending (handle_at w h)) hs" by simp
    have "run_pending_loop ext (next_pending (handle_at w h)) w1 = Some (dispatch_each ext hs w1)"
      using ch1 Cons.prems(2) keep by (intro Cons.IH) simp_all
    with p Inr show ?thesis by (subst run_pending_loop.simps) simp
  qed
qed

lemma uv__run_pending_refines:
  assumes k: "keeps_pending_links ext"
      and ch: "is_chain (heap (fst w)) (pending_handles (loop_of w)) hs"
      and d: "distinct hs"
      and fl: "\<forall>x \<in> set hs. flags (handle_at w x) AND UV__PENDING \<noteq> 0"
  shows "uv__run_pending ext w =
           Some (dispatch_each ext hs (upd_loop (\<lambda>l. l\<lparr>pending_handles := None\<rparr>) w))"
proof (cases "pending_handles (loop_of w)")
  case None
  with ch have "hs = []" by (cases hs) simp_all
  moreover from None have "upd_loop (\<lambda>l. l\<lparr>pending_handles := None\<rparr>) w = w"
    by (simp add: upd_loop_def loop_of_def prod_eq_iff)
  ultimately show ?thesis using None by (simp add: uv__run_pending_def)
next
  case (Some h)
  let ?w = "upd_loop (\<lambda>l. l\<lparr>pending_handles := None\<rparr>) w"
  have "run_pending_loop ext (pending_handles (loop_of w)) ?w = Some (dispatch_each ext hs ?w)"
    using ch d fl by (intro run_pending_loop_refines [OF k]) (simp_all add: upd_loop_def handle_at_def)
  with Some show ?thesis by (simp add: uv__run_pending_def)
qed

lemma quiet_keeps: "keeps_pending_links quiet_env"
  by (simp add: keeps_pending_links_def quiet_env_def)

lemma uv_close_keeps:
  assumes k: "keeps_pending_links ext"
      and c: "uv_close ext h cb w = Inr w'"
      and x: "flags (handle_at w x) AND UV__PENDING \<noteq> 0"
  shows "flags (handle_at w' x) AND UV__PENDING \<noteq> 0 \<and>
         next_pending (handle_at w' x) = next_pending (handle_at w x)"
proof (cases "close_routine (type (handle_at w h)) h")
  case None
  with c show ?thesis by (simp add: uv_close_unknown)
next
  case (Some r)
  let ?w0 = "upd_handle h (\<lambda>x. x\<lparr>close_cb := cb\<rparr>) w"
  let ?w1 = "upd_handle h (\<lambda>x. x\<lparr>flags := flags x OR UV_CLOSING\<rparr>) (call ext r ?w0)"
  from c Some have w': "w' = uv__make_pending h ?w1" by (simp add: uv_close_known)
  from x have 0: "flags (handle_at ?w0 x) AND UV__PENDING \<noteq> 0 \<and>
                  next_pending (handle_at ?w0 x) = next_pending (handle_at w x)"
    by (cases "x = h") simp_all
  with call_keeps [OF k, of ?w0 x r]
  have 1: "flags (handle_at (call ext r ?w0) x) AND UV__PENDING \<noteq> 0 \<and>
           next_pending (handle_at (call ext r ?w0) x) = next_pending (handle_at w x)"
    by simp
  then have 2: "flags (handle_at ?w1 x) AND UV__PENDING \<noteq> 0 \<and>
                next_pending (handle_at ?w1 x) = next_pending (handle_at w x)"
    by (cases "x = h") simp_all
  with make_pending_keeps [of ?w1 x h] w' show ?thesis by simp
qed

lemma close_other_keeps: "keeps_pending_links close_other_env"
  unfolding keeps_pending_links_def
proof (intro allI impI)
  fix c and s :: state and h
  assume p: "flags (heap s h) AND UV__PENDING \<noteq> 0"
  show "flags (heap (close_other_env c s) h) AND UV__PENDING \<noteq> 0 \<and>
        next_pending (heap (close_other_env c s) h) = next_pending (heap s h)"
  proof (cases "\<exists>cb x. c = Close_cb cb x")
    case False
    then have "close_other_env c s = s" by (cases c) (simp_all add: close_other_env_def)
    with p show ?thesis by simp
  next
    case True
    then obtain cb x where c: "c = Close_cb cb x" by blast
    show ?thesis
    proof (cases "uv_close quiet_env 3 None (s, [])")
      case (Inl e)
      with c p show ?thesis by (simp add: close_other_env_def)
    next
      case (Inr w')
      from p have "flags (handle_at (s, []) h) AND UV__PENDING \<noteq> 0"
        by (simp add: handle_at_def)
      from uv_close_keeps [OF quiet_keeps Inr this] Inr c show ?thesis
        by (simp add: close_other_env_def handle_at_def)
    qed
  qed
qed

text \<open>
  C3 (amended). For each handle it takes from the queue, \<open>uv__run_pending\<close>
  clears the link \<open>next_pending\<close> and the flag PENDING; then, if CLOSING is set, it
  runs the close finalizer; otherwise, if the handle is a named pipe, a TCP or a TTY
  stream, it runs the stream's pending-event routine; otherwise it aborts. If the
  queue is a chain \<open>hs\<close> of handles flagged PENDING, and the routines outside core.c
  leave the links of flagged handles alone, then \<open>uv__run_pending\<close> first empties
  the loop's queue and then handles exactly the handles of \<open>hs\<close>, in order, each
  once; every routine it calls is called for a handle of \<open>hs\<close>, so a handle that is
  enqueued during the pass is not handled in this pass and stays on the loop's queue.
\<close>

theorem run_pending_detaches_and_dispatches:
  "(\<forall>p. \<exists>w1.
      w1 = upd_handle p (\<lambda>x. x\<lparr>next_pending := None, flags := flags x AND NOT UV__PENDING\<rparr>) w \<and>
      next_pending (handle_at w1 p) = None \<and>
      flags (handle_at w1 p) AND UV__PENDING = 0 \<and>
      run_pending_body ext p w =
        (if flags (handle_at w p) AND UV_CLOSING \<noteq> 0 then uv__finish_close ext p w1
         else if is_stream (type (handle_at w p)) then Inr (call ext (Uv__stream_pending p) w1)
         else Inl Aborted)) \<and>
   (keeps_pending_links ext \<and>
    is_chain (heap (fst w)) (pending_handles (loop_of w)) hs \<and>
    (\<forall>x \<in> set hs. flags (handle_at w x) AND UV__PENDING \<noteq> 0) \<longrightarrow>
      (\<exists>w0. w0 = upd_loop (\<lambda>l. l\<lparr>pending_handles := None\<rparr>) w \<and>
            pending_handles (loop_of w0) = None \<and>
            uv__run_pending ext w = Some (dispatch_each ext hs w0) \<and>
            (\<forall>w'. dispatch_each ext hs w0 = Inr w' \<longrightarrow>
               (\<exists>tr. snd w' = snd w @ tr \<and>
                     (\<forall>c \<in> set tr. \<exists>x \<in> set hs. call_handle c = Some x)))))"
proof (intro conjI allI impI)
  fix p
  show "\<exists>w1.
      w1 = upd_handle p (\<lambda>x. x\<lparr>next_pending := None, flags := flags x AND NOT UV__PENDING\<rparr>) w \<and>
      next_pending (handle_at w1 p) = None \<and>
      flags (handle_at w1 p) AND UV__PENDING = 0 \<and>
      run_pending_body ext p w =
        (if flags (handle_at w p) AND UV_CLOSING \<noteq> 0 then uv__finish_close ext p w1
         else if is_stream (type (handle_at w p)) then Inr (call ext (Uv__stream_pending p) w1)
         else Inl Aborted)"
    using body_cases [of ext p w] by simp
next
  assume a: "keeps_pending_links ext \<and>
    is_chain (heap (fst w)) (pending_handles (loop_of w)) hs \<and>
    (\<forall>x \<in> set hs. flags (handle_at w x) AND UV__PENDING \<noteq> 0)"
  let ?w0 = "upd_loop (\<lambda>l. l\<lparr>pending_handles := None\<rparr>) w"
  from a have d: "distinct hs" by (auto dest: is_chain_distinct)
  have r: "uv__run_pending ext w = Some (dispatch_each ext hs ?w0)"
    using a d by (intro uv__run_pending_refines) simp_all
  have t: "\<forall>w'. dispatch_each ext hs ?w0 = Inr w' \<longrightarrow>
               (\<exists>tr. snd w' = snd w @ tr \<and>
                     (\<forall>c \<in> set tr. \<exists>x \<in> set hs. call_handle c = Some x))"
    using dispatch_each_trace [of ext hs ?w0] by simp
  show "\<exists>w0. w0 = upd_loop (\<lambda>l. l\<lparr>pending_handles := None\<rparr>) w \<and>
            pending_handles (loop_of w0) = None \<and>
            uv__run_pending ext w = Some (dispatch_each ext hs w0) \<and>
            (\<forall>w'. dispatch_each ext hs w0 = Inr w' \<longrightarrow>
               (\<exists>tr. snd w' = snd w @ tr \<and>
                     (\<forall>c \<in> set tr. \<exists>x \<in> set hs. call_handle c = Some x)))"
    using r t by simp
qed

theorem run_pending_detaches_and_dispatches_witness:
  "keeps_pending_links close_other_env \<and>
   is_chain (heap drain_example) (pending_handles (loop drain_example)) [1, 2] \<and>
   flags (heap drain_example 1) AND UV__PENDING \<noteq> 0 \<and>
   flags (heap drain_example 2) AND UV__PENDING \<noteq> 0 \<and>
   (\<exists>w'. uv__run_pending close_other_env (drain_example, []) = Some (Inr w') \<and>
         snd w' = [Uv__stream_pending 1, Close_cb 9 2, Uv__handle_unref 2] \<and>
         pending_handles (loop_of w') = Some 3 \<and>
         flags (handle_at w' 1) = UV__REF \<and>
         flags (handle_at w' 2) = UV__REF OR UV_CLOSING OR UV_CLOSED \<and>
         flags (handle_at w' 3) = UV__REF OR UV_CLOSING OR UV__PENDING \<and>
         next_pending (handle_at w' 3) = None)"
proof -
  let ?w = "(drain_example, [])"
  have k: "keeps_pending_links close_other_env" by (rule close_other_keeps)
  have ch: "is_chain (heap (fst ?w)) (pending_handles (loop_of ?w)) [1, 2]"
    by (simp add: drain_example_def loop_of_def)
  have fl: "\<forall>x \<in> set [1, 2]. flags (handle_at ?w x) AND UV__PENDING \<noteq> 0"
    by (simp add: drain_example_def handle_at_def flag_defs)
  from run_pending_detaches_and_dispatches [of ?w close_other_env "[1, 2]"] k ch fl
  have r: "uv__run_pending close_other_env ?w =
             Some (dispatch_each close_other_env [1, 2]
                     (upd_loop (\<lambda>l. l\<lparr>pending_handles := None\<rparr>) ?w))"
    by blast
  have e: "\<exists>w'. dispatch_each close_other_env [1, 2]
                 (upd_loop (\<lambda>l. l\<lparr>pending_handles := None\<rparr>) ?w) = Inr w' \<and>
         snd w' = [Uv__stream_pending 1, Close_cb 9 2, Uv__handle_unref 2] \<and>
         pending_handles (loop_of w') = Some 3 \<and>
         flags (handle_at w' 1) = UV__REF \<and>
         flags (handle_at w' 2) = UV__REF OR UV_CLOSING OR UV_CLOSED \<and>
         flags (handle_at w' 3) = UV__REF OR UV_CLOSING OR UV__PENDING \<and>
         next_pending (handle_at w' 3) = None"
    by (simp add: eval_defs close_other_env_def drain_example_def)
  from k ch fl r e show ?thesis
    by (simp add: handle_at_def loop_of_def)
qed

text \<open>
  A timer that is flagged PENDING and is not being closed, alone on the queue:
  no routine is run for it, \<open>uv__run_pending\<close> aborts.
\<close>

theorem run_pending_aborts_on_timer:
  "is_chain (heap timer_pending_example) (pending_handles (loop timer_pending_example)) [1] \<and>
   type (heap timer_pending_example 1) = UV_TIMER \<and>
   flags (heap timer_pending_example 1) AND UV_CLOSING = 0 \<and>
   uv__run_pending quiet_env (timer_pending_example, []) = Some (Inl Aborted)"
proof -
  let ?w = "(timer_pending_example, [])"
  have ch: "is_chain (heap (fst ?w)) (pending_handles (loop_of ?w)) [1]"
    by (simp add: timer_pending_example_def loop_of_def)
  have fl: "\<forall>x \<in> set [1]. flags (handle_at ?w x) AND UV__PENDING \<noteq> 0"
    by (simp add: timer_pending_example_def handle_at_def flag_defs)
  have "uv__run_pending quiet_env ?w =
          Some (dispatch_each quiet_env [1] (upd_loop (\<lambda>l. l\<lparr>pending_handles := None\<rparr>) ?w))"
    using quiet_keeps ch _ fl by (rule uv__run_pending_refines) simp
  also have "dispatch_each quiet_env [1] (upd_loop (\<lambda>l. l\<lparr>pending_handles := None\<rparr>) ?w) =
               Inl Aborted"
    by (simp add: eval_defs timer_pending_example_def)
  finally show ?thesis
    by (simp add: timer_pending_example_def flag_defs)
qed

subsection \<open>The run loop\<close>

lemma uv__run_result:
  "uv__run ext w = Some (Inr (again, w')) \<Longrightarrow>
   again = (uv__has_pending_handles w' \<or> uv__has_active_handles w' \<or> uv__has_active_reqs w')"
  by (auto simp add: uv__run_def Let_def split: option.splits sum.splits)

lemma uv_run_cycles:
  "run_cycles ext n w = Some (Inr (False, w')) \<Longrightarrow> uv_run ext w = Some (Inr (0, w'))"
proof (induction n arbitrary: w)
  case 0
  then show ?case by (subst uv_run.simps) simp
next
  case (Suc n)
  show ?case
  proof (cases "uv__run ext w")
    case None
    with Suc.prems show ?thesis by simp
  next
    case (Some r)
    show ?thesis
    proof (cases r)
      case (Inl e)
      with Some Suc.prems show ?thesis by simp
    next
      case (Inr bw)
      obtain again w1 where bw: "bw = (again, w1)" by (cases bw)
      show ?thesis
      proof (cases again)
        case True
        with Some Inr bw Suc.prems have "run_cycles ext n w1 = Some (Inr (False, w'))" by simp
        then have "uv_run ext w1 = Some (Inr (0, w'))" by (rule Suc.IH)
        with Some Inr bw True show ?thesis by (subst uv_run.simps) simp
      next
        case False
        with Some Inr bw Suc.prems have "w1 = w'" by simp
        with Some Inr bw False show ?thesis by (subst uv_run.simps) simp
      qed
    qed
  qed
qed

lemma uv_run_returns:
  assumes run: "uv_run ext w = Some y"
  shows "\<forall>r w'. y = Inr (r, w') \<longrightarrow>
           r = 0 \<and> (\<exists>n. run_cycles ext n w = Some (Inr (False, w')))"
proof (rule uv_run.raw_induct
    [where P = "\<lambda>ext w y. \<forall>r w'. y = Inr (r, w') \<longrightarrow>
                  r = 0 \<and> (\<exists>n. run_cycles ext n w = Some (Inr (False, w')))", OF _ run])
  fix f :: "env \<Rightarrow> world \<Rightarrow> (abort + int \<times> world) option"
  fix ext w y
  assume IH: "\<And>ext w y. f ext w = Some y \<Longrightarrow>
                \<forall>r w'. y = Inr (r, w') \<longrightarrow>
                  r = 0 \<and> (\<exists>n. run_cycles ext n w = Some (Inr (False, w')))"
  assume body: "(case uv__run ext w of
                   None \<Rightarrow> None
                 | Some (Inl e) \<Rightarrow> Some (Inl e)
                 | Some (Inr (again, w)) \<Rightarrow> if again then f ext w else Some (Inr (0, w))) = Some y"
  show "\<forall>r w'. y = Inr (r, w') \<longrightarrow>
          r = 0 \<and> (\<exists>n. run_cycles ext n w = Some (Inr (False, w')))"
  proof (intro allI impI)
    fix r w' assume y: "y = Inr (r, w')"
    from body obtain x where x: "uv__run ext w = Some x"
      by (cases "uv__run ext w") simp_all
    show "r = 0 \<and> (\<exists>n. run_cycles ext n w = Some (Inr (False, w')))"
    proof (cases x)
      case (Inl e)
      with body x y show ?thesis by simp
    next
      case (Inr bw)
      obtain again w1 where bw: "bw = (again, w1)" by (cases bw)
      show ?thesis
      proof (cases again)
        case True
        with body x Inr bw have "f ext w1 = Some y" by simp
        from IH [OF this] y obtain n where
          "r = 0" and "run_cycles ext n w1 = Some (Inr (False, w'))" by blast
        with x Inr bw True have "run_cycles ext (Suc n) w = Some (Inr (False, w'))" by simp
        with \<open>r = 0\<close> show ?thesis by blast
      next
        case False
        with body x Inr bw y have "r = 0" and "w1 = w'" by simp_all
        with x Inr bw False have "run_cycles ext 0 w = Some (Inr (False, w'))" by simp
        with \<open>r = 0\<close> show ?thesis by blast
      qed
    qed
  qed
qed

lemma uv__run_after_pending:
  "uv__run_pending ext (call ext Uv__run_idle w) = Some (Inr w2) \<Longrightarrow>
   \<exists>w'. uv__run ext w =
          Some (Inr (pending_handles (loop_of w') \<noteq> None \<or> active_handles (loop_of w') \<noteq> [] \<or>
                     active_reqs (loop_of w') \<noteq> [], w')) \<and>
        uv_run_once ext w = Some (Inr (0, w'))"
proof -
  assume r: "uv__run_pending ext (call ext Uv__run_idle w) = Some (Inr w2)"
  define w3 where
    "w3 = (if uv__has_active_handles w2 \<or> uv__has_active_reqs w2 then
             call ext Uv__run_check
               (uv__poll ext (uv__should_block (call ext Uv__run_prepare w2))
                  (call ext Uv__run_prepare w2))
           else w2)"
  from r have 1: "uv__run ext w =
      Some (Inr (uv__has_pending_handles w3 \<or> uv__has_active_handles w3 \<or>
                 uv__has_active_reqs w3, w3))"
    by (simp add: uv__run_def Let_def w3_def)
  then have 2: "uv_run_once ext w = Some (Inr (0, w3))"
    by (simp add: uv_run_once_def)
  from 1 have "uv__run ext w =
      Some (Inr (pending_handles (loop_of w3) \<noteq> None \<or> active_handles (loop_of w3) \<noteq> [] \<or>
                 active_reqs (loop_of w3) \<noteq> [], w3))"
    by (simp only: uv__has_pending_handles_def uv__has_active_handles_def
          uv__has_active_reqs_def)
  with 2 show ?thesis by blast
qed

lemma uv__run_pending_aborts:
  "uv__run_pending ext (call ext Uv__run_idle w) = Some (Inl e) \<Longrightarrow>
   uv__run ext w = Some (Inl e) \<and> uv_run_once ext w = Some (Inl e)"
  by (simp add: uv__run_def uv_run_once_def Let_def)

text \<open>
  C6. A cycle returns. When the pending queue is empty after the idle phase, the
  cycle returns a value; when the queue is a list of handles flagged PENDING, and the
  routines outside core.c leave the links of such handles alone, the cycle returns a
  value if the dispatch of these handles ends without a failed assertion, and stops
  with that failure otherwise. The value is true exactly when, at the end of the
  cycle, the pending queue is not empty or there is an active handle or an active
  request; \<open>uv_run_once\<close> runs that one cycle and returns 0 whatever the cycle
  returned. \<open>uv_run\<close> runs cycle after cycle while they return true: if the first
  cycle that returns false is cycle \<open>n + 1\<close>, \<open>uv_run\<close> returns 0 with the memory
  that cycle left; and whenever \<open>uv_run\<close> returns, it returns 0 and the last of its
  cycles returned false.
\<close>

theorem reactor_cycle_and_run:
  "(pending_handles (loop_of (call ext Uv__run_idle w)) = None \<longrightarrow>
      (\<exists>w'. uv__run ext w =
               Some (Inr (pending_handles (loop_of w') \<noteq> None \<or>
                          active_handles (loop_of w') \<noteq> [] \<or>
                          active_reqs (loop_of w') \<noteq> [], w')) \<and>
            uv_run_once ext w = Some (Inr (0, w')))) \<and>
   (\<forall>hs. keeps_pending_links ext \<and>
      is_chain (heap (fst (call ext Uv__run_idle w)))
        (pending_handles (loop_of (call ext Uv__run_idle w))) hs \<and>
      (\<forall>x \<in> set hs. flags (handle_at (call ext Uv__run_idle w) x) AND UV__PENDING \<noteq> 0) \<longrightarrow>
      uv__run ext w \<noteq> None \<and> uv_run_once ext w \<noteq> None \<and>
      (\<forall>e. dispatch_each ext hs
              (upd_loop (\<lambda>l. l\<lparr>pending_handles := None\<rparr>) (call ext Uv__run_idle w)) = Inl e \<longrightarrow>
         uv__run ext w = Some (Inl e) \<and> uv_run_once ext w = Some (Inl e)) \<and>
      (\<forall>w2. dispatch_each ext hs
               (upd_loop (\<lambda>l. l\<lparr>pending_handles := None\<rparr>) (call ext Uv__run_idle w)) = Inr w2 \<longrightarrow>
         (\<exists>w'. uv__run ext w =
                  Some (Inr (pending_handles (loop_of w') \<noteq> None \<or>
                             active_handles (loop_of w') \<noteq> [] \<or>
                             active_reqs (loop_of w') \<noteq> [], w')) \<and>
               uv_run_once ext w = Some (Inr (0, w'))))) \<and>
   (\<forall>again w'. uv__run ext w = Some (Inr (again, w')) \<longrightarrow>
      again = (pending_handles (loop_of w') \<noteq> None \<or> active_handles (loop_of w') \<noteq> [] \<or>
               active_reqs (loop_of w') \<noteq> []) \<and>
      uv_run_once ext w = Some (Inr (0, w'))) \<and>
   (\<forall>n w'. run_cycles ext n w = Some (Inr (False, w')) \<longrightarrow>
      uv_run ext w = Some (Inr (0, w'))) \<and>
   (\<forall>r w'. uv_run ext w = Some (Inr (r, w')) \<longrightarrow>
      r = 0 \<and> (\<exists>n. run_cycles ext n w = Some (Inr (False, w'))))"
proof -
  let ?w1 = "call ext Uv__run_idle w"
  let ?P = "\<lambda>w'. \<exists>w''. uv__run ext w =
               Some (Inr (pending_handles (loop_of w'') \<noteq> None \<or>
                          active_handles (loop_of w'') \<noteq> [] \<or>
                          active_reqs (loop_of w'') \<noteq> [], w'')) \<and>
            uv_run_once ext w = Some (Inr (0, w''))"
  have 1: "\<exists>w'. uv__run ext w =
               Some (Inr (pending_handles (loop_of w') \<noteq> None \<or>
                          active_handles (loop_of w') \<noteq> [] \<or>
                          active_reqs (loop_of w') \<noteq> [], w')) \<and>
            uv_run_once ext w = Some (Inr (0, w'))"
    if "pending_handles (loop_of ?w1) = None"
  proof -
    from that have "uv__run_pending ext ?w1 = Some (Inr ?w1)"
      by (simp add: uv__run_pending_def)
    then show ?thesis by (rule uv__run_after_pending)
  qed
  have 2: "uv__run ext w \<noteq> None \<and> uv_run_once ext w \<noteq> None \<and>
      (\<forall>e. dispatch_each ext hs (upd_loop (\<lambda>l. l\<lparr>pending_handles := None\<rparr>) ?w1) = Inl e \<longrightarrow>
         uv__run ext w = Some (Inl e) \<and> uv_run_once ext w = Some (Inl e)) \<and>
      (\<forall>w2. dispatch_each ext hs (upd_loop (\<lambda>l. l\<lparr>pending_handles := None\<rparr>) ?w1) = Inr w2 \<longrightarrow>
         (\<exists>w'. uv__run ext w =
                  Some (Inr (pending_handles (loop_of w') \<noteq> None \<or>
                             active_handles (loop_of w') \<noteq> [] \<or>
                             active_reqs (loop_of w') \<noteq> [], w')) \<and>
               uv_run_once ext w = Some (Inr (0, w'))))"
    if h: "keeps_pending_links ext \<and>
      is_chain (heap (fst ?w1)) (pending_handles (loop_of ?w1)) hs \<and>
      (\<forall>x \<in> set hs. flags (handle_at ?w1 x) AND UV__PENDING \<noteq> 0)" for hs
  proof -
    let ?d = "dispatch_each ext hs (upd_loop (\<lambda>l. l\<lparr>pending_handles := None\<rparr>) ?w1)"
    from h have k: "keeps_pending_links ext"
      and ch: "is_chain (heap (fst ?w1)) (pending_handles (loop_of ?w1)) hs"
      and fl: "\<forall>x \<in> set hs. flags (handle_at ?w1 x) AND UV__PENDING \<noteq> 0"
      by blast+
    from uv__run_pending_refines [OF k ch is_chain_distinct [OF ch] fl]
    have r: "uv__run_pending ext ?w1 = Some ?d" .
    have a: "uv__run ext w = Some (Inl e) \<and> uv_run_once ext w = Some (Inl e)"
      if "?d = Inl e" for e
      using r that by (intro uv__run_pending_aborts) simp
    have b: "\<exists>w'. uv__run ext w =
                  Some (Inr (pending_handles (loop_of w') \<noteq> None \<or>
                             active_handles (loop_of w') \<noteq> [] \<or>
                             active_reqs (loop_of w') \<noteq> [], w')) \<and>
               uv_run_once ext w = Some (Inr (0, w'))"
      if "?d = Inr w2" for w2
      using r that by (intro uv__run_after_pending [of ext w w2]) simp
    have c: "uv__run ext w \<noteq> None \<and> uv_run_once ext w \<noteq> None"
    proof (cases ?d)
      case (Inl e)
      from a [OF Inl] show ?thesis by simp
    next
      case (Inr w2)
      from b [OF Inr] show ?thesis by auto
    qed
    from a b c show ?thesis by blast
  qed
  have 3: "again = (pending_handles (loop_of w') \<noteq> None \<or> active_handles (loop_of w') \<noteq> [] \<or>
                 active_reqs (loop_of w') \<noteq> []) \<and>
           uv_run_once ext w = Some (Inr (0, w'))"
    if r: "uv__run ext w = Some (Inr (again, w'))" for again w'
  proof -
    from uv__run_result [OF r]
    have "again = (pending_handles (loop_of w') \<noteq> None \<or> active_handles (loop_of w') \<noteq> [] \<or>
                   active_reqs (loop_of w') \<noteq> [])"
      by (simp add: uv__has_pending_handles_def uv__has_active_handles_def
            uv__has_active_reqs_def)
    moreover from r have "uv_run_once ext w = Some (Inr (0, w'))"
      by (simp add: uv_run_once_def)
    ultimately show ?thesis by blast
  qed
  have 4: "uv_run ext w = Some (Inr (0, w'))"
    if "run_cycles ext n w = Some (Inr (False, w'))" for n w'
    using that by (rule uv_run_cycles)
  have 5: "r = 0 \<and> (\<exists>n. run_cycles ext n w = Some (Inr (False, w')))"
    if run: "uv_run ext w = Some (Inr (r, w'))" for r w'
    using uv_run_returns [OF run] by blast
  from 1 2 3 4 5 show ?thesis by blast
qed

theorem reactor_cycle_and_run_witness:
  "uv__run quiet_env (empty_loop, []) = Some (Inr (False, (empty_loop, [Uv__run_idle]))) \<and>
   uv_run_once quiet_env (empty_loop, []) = Some (Inr (0, (empty_loop, [Uv__run_idle]))) \<and>
   uv_run quiet_env (empty_loop, []) = Some (Inr (0, (empty_loop, [Uv__run_idle]))) \<and>
   run_cycles check_completes_env 1 (two_reqs_loop, []) =
     Some (Inr (False, (empty_loop,
       [Uv__run_idle, Uv__run_prepare, Ev_ref, Ev_run False, Ev_unref, Uv__run_check,
        Uv__run_idle, Uv__run_prepare, Ev_ref, Ev_run False, Ev_unref, Uv__run_check]))) \<and>
   uv_run check_completes_env (two_reqs_loop, []) =
     Some (Inr (0, (empty_loop,
       [Uv__run_idle, Uv__run_prepare, Ev_ref, Ev_run False, Ev_unref, Uv__run_check,
        Uv__run_idle, Uv__run_prepare, Ev_ref, Ev_run False, Ev_unref, Uv__run_check]))) \<and>
   keeps_pending_links close_other_env \<and>
   is_chain (heap drain_example) (pending_handles (loop drain_example)) [1, 2] \<and>
   flags (heap drain_example 1) AND UV__PENDING \<noteq> 0 \<and>
   flags (heap drain_example 2) AND UV__PENDING \<noteq> 0 \<and>
   (\<exists>w'. uv__run close_other_env (drain_example, []) = Some (Inr (True, w')) \<and>
         uv_run_once close_other_env (drain_example, []) = Some (Inr (0, w')) \<and>
         pending_handles (loop_of w') = Some 3 \<and>
         active_handles (loop_of w') = [] \<and> active_reqs (loop_of w') = [] \<and>
         snd w' = [Uv__run_idle, Uv__stream_pending 1, Close_cb 9 2, Uv__handle_unref 2]) \<and>
   is_chain (heap timer_pending_example) (pending_handles (loop timer_pending_example)) [1] \<and>
   flags (heap timer_pending_example 1) AND UV__PENDING \<noteq> 0 \<and>
   uv__run quiet_env (timer_pending_example, []) = Some (Inl Aborted) \<and>
   uv_run_once quiet_env (timer_pending_example, []) = Some (Inl Aborted)"
proof -
  have a0: "pending_handles (loop_of (call quiet_env Uv__run_idle (empty_loop, []))) = None"
    by (simp add: reactor_defs quiet_env_def empty_loop_def)
  from reactor_cycle_and_run [of quiet_env "(empty_loop, [])"] a0
  obtain w0 where a1: "uv__run quiet_env (empty_loop, []) =
      Some (Inr (pending_handles (loop_of w0) \<noteq> None \<or> active_handles (loop_of w0) \<noteq> [] \<or>
                 active_reqs (loop_of w0) \<noteq> [], w0))"
    by blast
  have a: "uv__run quiet_env (empty_loop, []) =
             Some (Inr (False, (empty_loop, [Uv__run_idle])))"
    by (simp add: uv__run_def uv__run_pending_def reactor_defs quiet_env_def empty_loop_def)
  then have a': "run_cycles quiet_env 0 (empty_loop, []) =
             Some (Inr (False, (empty_loop, [Uv__run_idle])))"
    by simp
  have b: "run_cycles check_completes_env 1 (two_reqs_loop, []) =
     Some (Inr (False, (empty_loop,
       [Uv__run_idle, Uv__run_prepare, Ev_ref, Ev_run False, Ev_unref, Uv__run_check,
        Uv__run_idle, Uv__run_prepare, Ev_ref, Ev_run False, Ev_unref, Uv__run_check])))"
    by (simp add: uv__run_def uv__run_pending_def reactor_defs check_completes_env_def
          two_reqs_loop_def empty_loop_def)
  from reactor_cycle_and_run [of quiet_env "(empty_loop, [])"] a a'
  have c: "uv_run_once quiet_env (empty_loop, []) = Some (Inr (0, (empty_loop, [Uv__run_idle])))"
    and d: "uv_run quiet_env (empty_loop, []) = Some (Inr (0, (empty_loop, [Uv__run_idle])))"
    by blast+
  from reactor_cycle_and_run [of check_completes_env "(two_reqs_loop, [])"] b
  have e: "uv_run check_completes_env (two_reqs_loop, []) =
     Some (Inr (0, (empty_loop,
       [Uv__run_idle, Uv__run_prepare, Ev_ref, Ev_run False, Ev_unref, Uv__run_check,
        Uv__run_idle, Uv__run_prepare, Ev_ref, Ev_run False, Ev_unref, Uv__run_check])))"
    by blast
  let ?w = "(drain_example, [])"
  let ?w1 = "call close_other_env Uv__run_idle ?w"
  let ?d = "dispatch_each close_other_env [1, 2]
              (upd_loop (\<lambda>l. l\<lparr>pending_handles := None\<rparr>) ?w1)"
  have k: "keeps_pending_links close_other_env" by (rule close_other_keeps)
  have w1: "?w1 = (drain_example, [Uv__run_idle])"
    by (simp add: call_def close_other_env_def)
  have ch: "is_chain (heap (fst ?w1)) (pending_handles (loop_of ?w1)) [1, 2]"
    unfolding w1 by (simp add: drain_example_def loop_of_def)
  have fl: "\<forall>x \<in> set [1, 2]. flags (handle_at ?w1 x) AND UV__PENDING \<noteq> 0"
    unfolding w1 by (simp add: drain_example_def handle_at_def flag_defs)
  have dv: "\<exists>w2. ?d = Inr w2 \<and>
         pending_handles (loop_of w2) = Some 3 \<and>
         active_handles (loop_of w2) = [] \<and> active_reqs (loop_of w2) = [] \<and>
         snd w2 = [Uv__run_idle, Uv__stream_pending 1, Close_cb 9 2, Uv__handle_unref 2]"
    unfolding w1 by (simp add: eval_defs close_other_env_def drain_example_def)
  then obtain w2 where d2: "?d = Inr w2"
    and p2: "pending_handles (loop_of w2) = Some 3"
    and ah2: "active_handles (loop_of w2) = []" and ar2: "active_reqs (loop_of w2) = []"
    and t2: "snd w2 = [Uv__run_idle, Uv__stream_pending 1, Close_cb 9 2, Uv__handle_unref 2]"
    by blast
  from reactor_cycle_and_run [of close_other_env ?w] k ch fl d2
  obtain w' where f1: "uv__run close_other_env ?w =
      Some (Inr (pending_handles (loop_of w') \<noteq> None \<or> active_handles (loop_of w') \<noteq> [] \<or>
                 active_reqs (loop_of w') \<noteq> [], w'))"
    and f2: "uv_run_once close_other_env ?w = Some (Inr (0, w'))"
    by blast
  have rp: "uv__run_pending close_other_env ?w1 = Some (Inr w2)"
    using uv__run_pending_refines [OF k ch is_chain_distinct [OF ch] fl] d2 by simp
  have "uv__run close_other_env ?w = Some (Inr (True, w2))"
    unfolding uv__run_def Let_def rp using p2 ah2 ar2
    by (simp add: uv__has_pending_handles_def uv__has_active_handles_def
          uv__has_active_reqs_def)
  with f1 have "w' = w2" by simp
  with f1 f2 p2 ah2 ar2 t2
  have f: "\<exists>w'. uv__run close_other_env ?w = Some (Inr (True, w')) \<and>
         uv_run_once close_other_env ?w = Some (Inr (0, w')) \<and>
         pending_handles (loop_of w') = Some 3 \<and>
         active_handles (loop_of w') = [] \<and> active_reqs (loop_of w') = [] \<and>
         snd w' = [Uv__run_idle, Uv__stream_pending 1, Close_cb 9 2, Uv__handle_unref 2]"
    by simp
  let ?t = "(timer_pending_example, [])"
  let ?t1 = "call quiet_env Uv__run_idle ?t"
  have t1: "?t1 = (timer_pending_example, [Uv__run_idle])"
    by (simp add: call_def quiet_env_def)
  have cht: "is_chain (heap (fst ?t1)) (pending_handles (loop_of ?t1)) [1]"
    unfolding t1 by (simp add: timer_pending_example_def loop_of_def)
  have flt: "\<forall>x \<in> set [1]. flags (handle_at ?t1 x) AND UV__PENDING \<noteq> 0"
    unfolding t1 by (simp add: timer_pending_example_def handle_at_def flag_defs)
  have dt: "dispatch_each quiet_env [1]
              (upd_loop (\<lambda>l. l\<lparr>pending_handles := None\<rparr>) ?t1) = Inl Aborted"
    unfolding t1 by (simp add: eval_defs timer_pending_example_def)
  from reactor_cycle_and_run [of quiet_env ?t] quiet_keeps cht flt dt
  have g: "uv__run quiet_env ?t = Some (Inl Aborted) \<and>
           uv_run_once quiet_env ?t = Some (Inl Aborted)"
    by blast
  from ch fl cht flt
  have pre: "is_chain (heap drain_example) (pending_handles (loop drain_example)) [1, 2] \<and>
      flags (heap drain_example 1) AND UV__PENDING \<noteq> 0 \<and>
      flags (heap drain_example 2) AND UV__PENDING \<noteq> 0 \<and>
      is_chain (heap timer_pending_example) (pending_handles (loop timer_pending_example)) [1] \<and>
      flags (heap timer_pending_example 1) AND UV__PENDING \<noteq> 0"
    unfolding w1 t1 by (simp add: handle_at_def loop_of_def)
  from a b c d e k f g pre show ?thesis by blast
qed

end
